theory Spec2Isabelle
  imports Main "HOL-Library.Word" "HOL-Library.Monad_Syntax"
begin

unbundle bit_operations_syntax

section \<open>Bytes, constants and errors\<close>

type_synonym byte = "8 word"
type_synonym bytes = "byte list"

text \<open>The constants of \<^verbatim>\<open>flatdb.go\<close>, and \<^verbatim>\<open>binary.MaxVarintLen32\<close> of the Go library.\<close>

definition temporaryName :: string where "temporaryName = ''tmp.db''"
definition syncedName :: string where "syncedName = ''flat.db''"
definition indexName :: string where "indexName = ''flat.index''"
definition bufferGrowRec :: nat where "bufferGrowRec = 3000"
definition chunkSize :: nat where "chunkSize = 4 * 1024 * 1024"
definition MaxVarintLen32 :: nat where "MaxVarintLen32 = 5"
definition maxRW :: nat where "maxRW = 2 ^ 30"

text \<open>
  The five error values the package declares, \<^verbatim>\<open>io.EOF\<close>, and the errors of the \<^verbatim>\<open>os\<close>
  package the model needs: a method called on a nil file, on a closed file, a file that does
  not exist, a descriptor opened in the wrong mode, and any other failure of a system call
  (numbered, as an errno is).
\<close>

datatype error =
    ErrReadOnly | ErrWriteOnly | ErrWriteFailure | ErrReadFailure | ErrEmptyEntry
  | EOF | ErrInvalid | ErrClosed | ErrNotExist | ErrBadFd | Errno nat

section \<open>Go slices of bytes\<close>

text \<open>
  A slice is a window on a backing array: \<open>elems\<close> are its elements, \<open>spare\<close> is the rest of
  the array after them, up to the capacity, which a re-slice beyond the length brings back.
  A slice expression out of range panics: the result is \<open>None\<close>.
\<close>

record slice =
  elems :: bytes
  spare :: bytes

definition nil_slice :: slice where
  "nil_slice = \<lparr>elems = [], spare = []\<rparr>"

definition len :: "slice \<Rightarrow> nat" where
  "len s = length (elems s)"

definition cap :: "slice \<Rightarrow> nat" where
  "cap s = length (elems s) + length (spare s)"

text \<open>\<^verbatim>\<open>make([]byte, l, c)\<close>, where \<open>l \<le> c\<close>.\<close>

definition make_bytes :: "nat \<Rightarrow> nat \<Rightarrow> slice" where
  "make_bytes l c = \<lparr>elems = replicate l 0, spare = replicate (c - l) 0\<rparr>"

text \<open>\<^verbatim>\<open>s[:h]\<close>: the bound is the capacity, not the length.\<close>

definition slice_to :: "slice \<Rightarrow> int \<Rightarrow> slice option" where
  "slice_to s h =
     (if 0 \<le> h \<and> h \<le> int (cap s)
      then Some \<lparr>elems = take (nat h) (elems s @ spare s),
                  spare = drop (nat h) (elems s @ spare s)\<rparr>
      else None)"

text \<open>\<^verbatim>\<open>s[:0]\<close>, which is always in range.\<close>

definition buff_reset :: "slice \<Rightarrow> slice" where
  "buff_reset s = \<lparr>elems = [], spare = elems s @ spare s\<rparr>"

text \<open>\<^verbatim>\<open>s[l:]\<close>: the upper bound is the length.\<close>

definition slice_from :: "slice \<Rightarrow> int \<Rightarrow> slice option" where
  "slice_from s l =
     (if 0 \<le> l \<and> l \<le> int (len s)
      then Some \<lparr>elems = drop (nat l) (elems s), spare = spare s\<rparr> else None)"

text \<open>The elements of \<^verbatim>\<open>s[l:h]\<close>.\<close>

definition slice_range :: "slice \<Rightarrow> int \<Rightarrow> int \<Rightarrow> bytes option" where
  "slice_range s l h =
     (if 0 \<le> l \<and> l \<le> h \<and> h \<le> int (cap s)
      then Some (take (nat (h - l)) (drop (nat l) (elems s @ spare s))) else None)"

text \<open>Storing the bytes \<open>bs\<close> in \<open>a\<close> from index \<open>p\<close> on, where they fit.\<close>

definition write_at :: "bytes \<Rightarrow> nat \<Rightarrow> bytes \<Rightarrow> bytes" where
  "write_at a p bs = take p a @ bs @ drop (p + length bs) a"

text \<open>\<^verbatim>\<open>copy(s[off:], src)\<close>: copies as many bytes as both hold and returns their number.\<close>

definition copy_to :: "slice \<Rightarrow> nat \<Rightarrow> bytes \<Rightarrow> (slice \<times> nat) option" where
  "copy_to s off src =
     (if off \<le> len s
      then (let n = min (len s - off) (length src)
            in Some (s\<lparr>elems := write_at (elems s) off (take n src)\<rparr>, n))
      else None)"

section \<open>The codecs of \<^verbatim>\<open>encoding/binary\<close>\<close>

text \<open>
  \<^verbatim>\<open>binary.PutUvarint\<close> stores seven bits a byte, least significant first, with the top bit
  set on every byte but the last. \<open>uvarint_bytes\<close> is the sequence of the bytes its loop
  stores.
\<close>

function uvarint_bytes :: "64 word \<Rightarrow> bytes" where
  "uvarint_bytes x =
     (if 0x80 \<le> x then (ucast x OR 0x80) # uvarint_bytes (drop_bit 7 x) else [ucast x])"
  by pat_completeness auto
termination
proof (relation "measure unat")
  show "wf (measure (unat :: 64 word \<Rightarrow> nat))" by simp
next
  fix x :: "64 word"
  assume "0x80 \<le> x"
  then have "128 \<le> unat x" by (simp add: word_le_nat_alt)
  then have "unat x div 128 < unat x" by simp
  then show "(drop_bit 7 x, x) \<in> measure unat"
    by (simp add: drop_bit_eq_div unat_div)
qed

declare uvarint_bytes.simps [simp del]

text \<open>
  \<^verbatim>\<open>binary.PutUvarint(s[off:], x)\<close>: an index beyond the length of the slice panics.
\<close>

definition PutUvarint :: "slice \<Rightarrow> nat \<Rightarrow> 64 word \<Rightarrow> (slice \<times> nat) option" where
  "PutUvarint s off x =
     (let bs = uvarint_bytes x
      in if off \<le> len s \<and> length bs \<le> len s - off
         then Some (s\<lparr>elems := write_at (elems s) off bs\<rparr>, length bs)
         else None)"

text \<open>
  \<^verbatim>\<open>binary.Uvarint\<close>: the loop over the bytes of the buffer, with the index \<open>i\<close>, the shift
  \<open>s\<close> and the value \<open>x\<close> read so far. It returns the value and the number of bytes read, 0
  when the buffer ends early and a negative number on overflow.
\<close>

fun Uvarint_loop :: "bytes \<Rightarrow> nat \<Rightarrow> nat \<Rightarrow> 64 word \<Rightarrow> 64 word \<times> int" where
  "Uvarint_loop [] i s x = (0, 0)"
| "Uvarint_loop (b # bs) i s x =
     (if i = 10 then (0, - (int i + 1))
      else if b < 0x80 then
        (if i = 9 \<and> 1 < b then (0, - (int i + 1))
         else (x OR push_bit s (ucast b), int i + 1))
      else Uvarint_loop bs (i + 1) (s + 7) (x OR push_bit s (ucast (b AND 0x7f))))"

definition Uvarint :: "bytes \<Rightarrow> 64 word \<times> int" where
  "Uvarint buf = Uvarint_loop buf 0 0 0"

text \<open>\<^verbatim>\<open>binary.BigEndian.PutUint64\<close> and \<^verbatim>\<open>binary.BigEndian.Uint64\<close>\<close>

definition PutUint64 :: "64 word \<Rightarrow> bytes" where
  "PutUint64 v =
     [ucast (drop_bit 56 v), ucast (drop_bit 48 v), ucast (drop_bit 40 v),
      ucast (drop_bit 32 v), ucast (drop_bit 24 v), ucast (drop_bit 16 v),
      ucast (drop_bit 8 v), ucast v]"

definition Uint64 :: "bytes \<Rightarrow> 64 word" where
  "Uint64 b =
     ucast (b ! 7) OR push_bit 8 (ucast (b ! 6)) OR push_bit 16 (ucast (b ! 5)) OR
     push_bit 24 (ucast (b ! 4)) OR push_bit 32 (ucast (b ! 3)) OR
     push_bit 40 (ucast (b ! 2)) OR push_bit 48 (ucast (b ! 1)) OR push_bit 56 (ucast (b ! 0))"

section \<open>The file system\<close>

text \<open>
  A file is named by its directory and its name (\<^verbatim>\<open>filepath.Join\<close>). The world holds the
  contents of the files and the directories that exist. Every call of the \<^verbatim>\<open>os\<close> package
  is recorded in \<open>trace\<close> with its result, in order. \<open>plan\<close> schedules the failures of the
  system: each call takes the head of the plan, and fails with that error, without effect,
  when there is one; when the plan is empty nothing fails but for the state of the files.
  A file is one name: there are no links, and the content of a file is kept as long as it
  has a name.
\<close>

type_synonym fpath = "string \<times> string"

datatype io_op =
    OpMkdirAll string
  | OpOpen fpath bool
  | OpWrite "fpath option" nat
  | OpRead "fpath option" nat
  | OpSeek "fpath option"
  | OpSync "fpath option"
  | OpClose "fpath option"
  | OpRename fpath fpath
  | OpSyncDir string

type_synonym event = "io_op \<times> error option"

record world =
  files :: "fpath \<Rightarrow> bytes option"
  dirs :: "string set"
  plan :: "error option list"
  trace :: "event list"

text \<open>
  An open file: its name, the position of the next read or write, whether it was opened
  \<^verbatim>\<open>O_WRONLY\<close> (else \<^verbatim>\<open>O_RDONLY\<close>) and whether it has been closed. A nil \<^verbatim>\<open>*os.File\<close> is
  \<open>None\<close>.
\<close>

record File =
  f_path :: fpath
  f_pos :: nat
  f_wronly :: bool
  f_closed :: bool

definition pop_fault :: "world \<Rightarrow> error option \<times> world" where
  "pop_fault w = (case plan w of [] \<Rightarrow> (None, w) | f # fs \<Rightarrow> (f, w\<lparr>plan := fs\<rparr>))"

definition log_ev :: "io_op \<Rightarrow> error option \<Rightarrow> world \<Rightarrow> world" where
  "log_ev c r w = w\<lparr>trace := trace w @ [(c, r)]\<rparr>"

text \<open>What stops a call on a file before the system is asked: nil or closed.\<close>

definition file_invalid :: "File option \<Rightarrow> error option" where
  "file_invalid f =
     (case f of None \<Rightarrow> Some ErrInvalid
      | Some h \<Rightarrow> if f_closed h then Some ErrClosed else None)"

text \<open>
  The directories above a path: what stands before each separator of the path, the root
  apart. \<^verbatim>\<open>os.MkdirAll\<close> makes the directory and every one of them that is missing.
\<close>

fun parents_from :: "string \<Rightarrow> string \<Rightarrow> string list" where
  "parents_from acc [] = []"
| "parents_from acc (c # cs) =
     (if c = CHR ''/'' \<and> acc \<noteq> [] then acc # parents_from (acc @ [c]) cs
      else parents_from (acc @ [c]) cs)"

definition parents :: "string \<Rightarrow> string list" where
  "parents p = parents_from [] p"

definition os_MkdirAll :: "string \<Rightarrow> world \<Rightarrow> error option \<times> world" where
  "os_MkdirAll p w =
     (case pop_fault w of
        (Some e, w1) \<Rightarrow> (Some e, log_ev (OpMkdirAll p) (Some e) w1)
      | (None, w1) \<Rightarrow>
          (None, log_ev (OpMkdirAll p) None
                   (w1\<lparr>dirs := insert p (set (parents p) \<union> dirs w1)\<rparr>)))"

text \<open>
  \<^verbatim>\<open>os.OpenFile\<close> with the two sets of flags the package uses: \<open>wr\<close> stands for
  \<^verbatim>\<open>O_WRONLY|O_CREATE|O_TRUNC\<close>, which needs the directory and leaves the file empty;
  otherwise \<^verbatim>\<open>O_RDONLY\<close>, which needs the file.
\<close>

definition os_OpenFile :: "fpath \<Rightarrow> bool \<Rightarrow> world \<Rightarrow> (error + File) \<times> world" where
  "os_OpenFile p wr w =
     (case pop_fault w of
        (Some e, w1) \<Rightarrow> (Inl e, log_ev (OpOpen p wr) (Some e) w1)
      | (None, w1) \<Rightarrow>
          if wr then
            (if fst p \<in> dirs w1
             then (Inr \<lparr>f_path = p, f_pos = 0, f_wronly = True, f_closed = False\<rparr>,
                   log_ev (OpOpen p wr) None (w1\<lparr>files := (files w1)(p \<mapsto> [])\<rparr>))
             else (Inl ErrNotExist, log_ev (OpOpen p wr) (Some ErrNotExist) w1))
          else
            (case files w1 p of
               None \<Rightarrow> (Inl ErrNotExist, log_ev (OpOpen p wr) (Some ErrNotExist) w1)
             | Some c \<Rightarrow>
                 (Inr \<lparr>f_path = p, f_pos = 0, f_wronly = False, f_closed = False\<rparr>,
                  log_ev (OpOpen p wr) None w1)))"

text \<open>The content of a file after \<open>bs\<close> is written at position \<open>pos\<close>.\<close>

definition pwrite :: "bytes \<Rightarrow> nat \<Rightarrow> bytes \<Rightarrow> bytes" where
  "pwrite c pos bs =
     take pos (c @ replicate (pos - length c) 0) @ bs @ drop (pos + length bs) c"

text \<open>
  The \<^verbatim>\<open>Write\<close> of an \<^verbatim>\<open>os.File\<close> returns the number of bytes written and an error, which is set
  whenever the number is not the length of \<open>bs\<close>. The model writes all or nothing. A
  descriptor stays writable when the name of its file is gone from the directory: the bytes
  then go to a file that no name reaches, and the call succeeds.
\<close>

definition file_Write ::
  "File option \<Rightarrow> bytes \<Rightarrow> world \<Rightarrow> nat \<times> error option \<times> File option \<times> world" where
  "file_Write f bs w =
     (let c = OpWrite (map_option f_path f) (length bs) in
      case pop_fault w of
        (Some e, w1) \<Rightarrow> (0, Some e, f, log_ev c (Some e) w1)
      | (None, w1) \<Rightarrow>
          (case f of
             None \<Rightarrow> (0, Some ErrInvalid, f, log_ev c (Some ErrInvalid) w1)
           | Some h \<Rightarrow>
               if f_closed h then (0, Some ErrClosed, f, log_ev c (Some ErrClosed) w1)
               else if \<not> f_wronly h then (0, Some ErrBadFd, f, log_ev c (Some ErrBadFd) w1)
               else
                 (case files w1 (f_path h) of
                    None \<Rightarrow>
                      (length bs, None, Some (h\<lparr>f_pos := f_pos h + length bs\<rparr>),
                       log_ev c None w1)
                  | Some old \<Rightarrow>
                      (length bs, None, Some (h\<lparr>f_pos := f_pos h + length bs\<rparr>),
                       log_ev c None
                         (w1\<lparr>files := (files w1)(f_path h \<mapsto> pwrite old (f_pos h) bs)\<rparr>)))))"

text \<open>
  The \<^verbatim>\<open>Read\<close> of an \<^verbatim>\<open>os.File\<close> into a buffer of \<open>n\<close> bytes returns the bytes read and an error: nothing
  and no error when \<open>n = 0\<close>, \<^verbatim>\<open>io.EOF\<close> at the end of the file, else the bytes the file has
  from the position on, \<open>n\<close> at most and never more than \<open>maxRW\<close>, the \<open>2 ^ 30\<close> bytes one
  call transfers (a \<^verbatim>\<open>Write\<close> goes on until all is written, a \<^verbatim>\<open>Read\<close> does not). The model
  does not keep the content of a file whose name is gone, so a read through a descriptor of
  such a file fails here.
\<close>

definition file_Read ::
  "File option \<Rightarrow> nat \<Rightarrow> world \<Rightarrow> bytes \<times> error option \<times> File option \<times> world" where
  "file_Read f n w =
     (let c = OpRead (map_option f_path f) n in
      case pop_fault w of
        (Some e, w1) \<Rightarrow> ([], Some e, f, log_ev c (Some e) w1)
      | (None, w1) \<Rightarrow>
          (case f of
             None \<Rightarrow> ([], Some ErrInvalid, f, log_ev c (Some ErrInvalid) w1)
           | Some h \<Rightarrow>
               if f_closed h then ([], Some ErrClosed, f, log_ev c (Some ErrClosed) w1)
               else if n = 0 then ([], None, f, log_ev c None w1)
               else if f_wronly h then ([], Some ErrBadFd, f, log_ev c (Some ErrBadFd) w1)
               else
                 (case files w1 (f_path h) of
                    None \<Rightarrow> ([], Some ErrBadFd, f, log_ev c (Some ErrBadFd) w1)
                  | Some old \<Rightarrow>
                      (let bs = take (min n maxRW) (drop (f_pos h) old) in
                       if bs = [] then ([], Some EOF, f, log_ev c (Some EOF) w1)
                       else (bs, None, Some (h\<lparr>f_pos := f_pos h + length bs\<rparr>),
                             log_ev c None w1)))))"

text \<open>\<^verbatim>\<open>f.Seek(0, 0)\<close>; the source ignores its results.\<close>

definition file_Seek0 :: "File option \<Rightarrow> world \<Rightarrow> File option \<times> world" where
  "file_Seek0 f w =
     (let c = OpSeek (map_option f_path f) in
      case pop_fault w of
        (Some e, w1) \<Rightarrow> (f, log_ev c (Some e) w1)
      | (None, w1) \<Rightarrow>
          (case f of
             None \<Rightarrow> (f, log_ev c (Some ErrInvalid) w1)
           | Some h \<Rightarrow>
               if f_closed h then (f, log_ev c (Some ErrClosed) w1)
               else (Some (h\<lparr>f_pos := 0\<rparr>), log_ev c None w1)))"

definition file_Sync :: "File option \<Rightarrow> world \<Rightarrow> error option \<times> world" where
  "file_Sync f w =
     (let c = OpSync (map_option f_path f) in
      case pop_fault w of
        (Some e, w1) \<Rightarrow> (Some e, log_ev c (Some e) w1)
      | (None, w1) \<Rightarrow> (file_invalid f, log_ev c (file_invalid f) w1))"

definition file_Close :: "File option \<Rightarrow> world \<Rightarrow> error option \<times> File option \<times> world" where
  "file_Close f w =
     (let c = OpClose (map_option f_path f) in
      case pop_fault w of
        (Some e, w1) \<Rightarrow> (Some e, f, log_ev c (Some e) w1)
      | (None, w1) \<Rightarrow>
          (case f of
             None \<Rightarrow> (Some ErrInvalid, f, log_ev c (Some ErrInvalid) w1)
           | Some h \<Rightarrow>
               if f_closed h then (Some ErrClosed, f, log_ev c (Some ErrClosed) w1)
               else (None, Some (h\<lparr>f_closed := True\<rparr>), log_ev c None w1)))"

text \<open>
  Modelled from the spec: \<^verbatim>\<open>rename\<close> is declared in a file of the package that is not among
  the sources. The spec has Commit ``atomically rename the temporary data file to its final
  name'': the content moves from the old name to the new one in one step, and the call fails
  when the old name does not exist.
\<close>

definition rename :: "fpath \<Rightarrow> fpath \<Rightarrow> world \<Rightarrow> error option \<times> world" where
  "rename old new w =
     (case pop_fault w of
        (Some e, w1) \<Rightarrow> (Some e, log_ev (OpRename old new) (Some e) w1)
      | (None, w1) \<Rightarrow>
          (case files w1 old of
             None \<Rightarrow> (Some ErrNotExist, log_ev (OpRename old new) (Some ErrNotExist) w1)
           | Some c \<Rightarrow>
               (None, log_ev (OpRename old new) None
                        (w1\<lparr>files := ((files w1)(old := None))(new \<mapsto> c)\<rparr>))))"

text \<open>
  Modelled from the spec: \<^verbatim>\<open>syncDir\<close> is declared in a file of the package that is not among
  the sources. The spec has Commit ``sync the containing directory'' after the rename, for
  durability: the call changes no content, and fails when the system says so.
\<close>

definition syncDir :: "string \<Rightarrow> world \<Rightarrow> error option \<times> world" where
  "syncDir p w =
     (case pop_fault w of
        (Some e, w1) \<Rightarrow> (Some e, log_ev (OpSyncDir p) (Some e) w1)
      | (None, w1) \<Rightarrow> (None, log_ev (OpSyncDir p) None w1))"

section \<open>The engine\<close>

text \<open>
  \<^verbatim>\<open>FlatDatabase\<close>, field by field; the lock is left out, calls are taken one at a time.
  \<open>offset\<close> is a \<^verbatim>\<open>uint64\<close>. \<open>items\<close> counts the records of the buffer.
\<close>

record FlatDatabase =
  path :: string
  data :: "File option"
  index :: "File option"
  read :: bool
  buff :: slice
  items :: nat
  iterating :: bool
  offset :: "64 word"

text \<open>
  A call that may panic returns an option, \<open>None\<close> for the panic. The other calls return
  what the source returns (\<open>None\<close> is a nil error there) with the engine and the world as
  the call leaves them, also when it fails.
\<close>

definition NewFlatDatabase :: "string \<Rightarrow> bool \<Rightarrow> world \<Rightarrow> (error + FlatDatabase) \<times> world" where
  "NewFlatDatabase p rd w =
     (case os_MkdirAll p w of
        (Some e, w1) \<Rightarrow> (Inl e, w1)
      | (None, w1) \<Rightarrow>
          (case os_OpenFile (p, if rd then syncedName else temporaryName) (\<not> rd) w1 of
             (Inl e, w2) \<Rightarrow> (Inl e, w2)
           | (Inr d, w2) \<Rightarrow>
               (case os_OpenFile (p, indexName) (\<not> rd) w2 of
                  (Inl e, w3) \<Rightarrow> (Inl e, w3)
                | (Inr i, w3) \<Rightarrow>
                    (Inr \<lparr>path = p, data = Some d, index = Some i, read = rd,
                          buff = nil_slice, items = 0, iterating = False, offset = 0\<rparr>, w3))))"

definition grow :: "int \<Rightarrow> FlatDatabase \<Rightarrow> FlatDatabase" where
  "grow n db =
     (let l = len (buff db) in
      if int (cap (buff db)) - int l < n then
        (let d = (if bufferGrowRec < items db then items db div bufferGrowRec else 1);
             ndata = make_bytes l (l + nat n + l div d)
         in db\<lparr>buff := ndata\<lparr>elems := write_at (elems ndata) 0 (elems (buff db))\<rparr>\<rparr>)
      else db)"

definition writeChunk ::
  "bool \<Rightarrow> FlatDatabase \<Rightarrow> world \<Rightarrow> error option \<times> FlatDatabase \<times> world" where
  "writeChunk force db w =
     (if len (buff db) < chunkSize \<and> \<not> force then (None, db, w)
      else
        (case file_Write (data db) (elems (buff db)) w of
           (n, Some e, f1, w1) \<Rightarrow> (Some e, db\<lparr>data := f1\<rparr>, w1)
         | (n, None, f1, w1) \<Rightarrow>
             if n \<noteq> len (buff db) then (Some ErrWriteFailure, db\<lparr>data := f1\<rparr>, w1)
             else
               (let db1 = db\<lparr>data := f1, buff := buff_reset (buff db), items := 0\<rparr> in
                case file_Write (index db1) (PutUint64 (offset db1)) w1 of
                  (m, Some e, f2, w2) \<Rightarrow> (Some e, db1\<lparr>index := f2\<rparr>, w2)
                | (m, None, f2, w2) \<Rightarrow>
                    if m \<noteq> 8 then (Some ErrWriteFailure, db1\<lparr>index := f2\<rparr>, w2)
                    else (None, db1\<lparr>index := f2\<rparr>, w2))))"

definition Put ::
  "bytes \<Rightarrow> bytes \<Rightarrow> FlatDatabase \<Rightarrow> world \<Rightarrow> (error option \<times> FlatDatabase \<times> world) option" where
  "Put k v db w =
     (if length k = 0 \<or> length v = 0 then Some (Some ErrEmptyEntry, db, w)
      else if read db then Some (Some ErrReadOnly, db, w)
      else
        (let n = 2 * MaxVarintLen32 + length k + length v;
             db1 = grow (int n) db;
             previous = len (buff db1)
         in do {
           b0 \<leftarrow> slice_to (buff db1) (int (previous + n));
           (b1, n1) \<leftarrow> PutUvarint b0 previous (of_nat (length k));
           (b2, n2) \<leftarrow> copy_to b1 (previous + n1) k;
           (b3, n3) \<leftarrow> PutUvarint b2 (previous + n1 + n2) (of_nat (length v));
           (b4, n4) \<leftarrow> copy_to b3 (previous + n1 + n2 + n3) v;
           b5 \<leftarrow> slice_to b4 (int (previous + n1 + n2 + n3 + n4));
           Some (writeChunk False
                  (db1\<lparr>buff := b5, items := items db1 + 1,
                       offset := offset db1 +
                         (of_nat (previous + n1 + n2 + n3 + n4) - of_nat previous)\<rparr>) w)
         }))"

definition readChunk ::
  "FlatDatabase \<Rightarrow> world \<Rightarrow> (error option \<times> FlatDatabase \<times> world) option" where
  "readChunk db w =
     (case file_Read (index db) 8 w of
        (local, Some e, f1, w1) \<Rightarrow> Some (Some e, db\<lparr>index := f1\<rparr>, w1)
      | (local, None, f1, w1) \<Rightarrow>
          if length local \<noteq> 8 then Some (Some ErrReadFailure, db\<lparr>index := f1\<rparr>, w1)
          else
            (let off = Uint64 local;
                 size = sint (off - offset db);
                 db1 = grow size (db\<lparr>index := f1, offset := off\<rparr>)
             in case slice_to (buff db1) size of
                  None \<Rightarrow> None
                | Some b \<Rightarrow>
                    (case file_Read (data db1) (len b) w1 of
                       (bs, r, f2, w2) \<Rightarrow>
                         (let db2 = db1\<lparr>buff := b\<lparr>elems := write_at (elems b) 0 bs\<rparr>, data := f2\<rparr> in
                          case r of
                            Some e \<Rightarrow> Some (Some e, db2, w2)
                          | None \<Rightarrow>
                              if int (length bs) \<noteq> size then Some (Some ErrReadFailure, db2, w2)
                              else Some (None, db2, w2)))))"

definition closeNoLock :: "FlatDatabase \<Rightarrow> world \<Rightarrow> error option \<times> FlatDatabase \<times> world" where
  "closeNoLock db w =
     (case writeChunk True db w of
        (Some e, db1, w1) \<Rightarrow> (Some e, db1, w1)
      | (None, db1, w1) \<Rightarrow>
          (case file_Sync (data db1) w1 of
             (Some e, w2) \<Rightarrow> (Some e, db1, w2)
           | (None, w2) \<Rightarrow>
               (case file_Sync (index db1) w2 of
                  (Some e, w3) \<Rightarrow> (Some e, db1, w3)
                | (None, w3) \<Rightarrow>
                    (case file_Close (data db1) w3 of
                       (Some e, f1, w4) \<Rightarrow> (Some e, db1\<lparr>data := f1\<rparr>, w4)
                     | (None, f1, w4) \<Rightarrow>
                         (case file_Close (index db1) w4 of
                            (Some e, f2, w5) \<Rightarrow> (Some e, db1\<lparr>data := f1, index := f2\<rparr>, w5)
                          | (None, f2, w5) \<Rightarrow> (None, db1\<lparr>data := f1, index := f2\<rparr>, w5))))))"

definition Commit :: "FlatDatabase \<Rightarrow> world \<Rightarrow> error option \<times> FlatDatabase \<times> world" where
  "Commit db w =
     (case closeNoLock db w of
        (Some e, db1, w1) \<Rightarrow> (Some e, db1, w1)
      | (None, db1, w1) \<Rightarrow>
          (case rename (path db1, temporaryName) (path db1, syncedName) w1 of
             (Some e, w2) \<Rightarrow> (Some e, db1, w2)
           | (None, w2) \<Rightarrow>
               (case syncDir (path db1) w2 of
                  (Some e, w3) \<Rightarrow> (Some e, db1, w3)
                | (None, w3) \<Rightarrow>
                    (let db2 = db1\<lparr>read := True, offset := 0\<rparr> in
                     case os_OpenFile (path db2, syncedName) False w3 of
                       (Inl e, w4) \<Rightarrow> (Some e, db2\<lparr>data := None\<rparr>, w4)
                     | (Inr d, w4) \<Rightarrow>
                         (case os_OpenFile (path db2, indexName) False w4 of
                            (Inl e, w5) \<Rightarrow> (Some e, db2\<lparr>data := Some d, index := None\<rparr>, w5)
                          | (Inr i, w5) \<Rightarrow>
                              (None, db2\<lparr>data := Some d, index := Some i\<rparr>, w5))))))"

definition Close :: "FlatDatabase \<Rightarrow> world \<Rightarrow> error option \<times> FlatDatabase \<times> world" where
  "Close db w = closeNoLock db w"

section \<open>The batch\<close>

text \<open>
  \<^verbatim>\<open>FlatBatch\<close> without its lock and its pointer to the engine, which the calls take as an
  argument. The two sizes are Go \<^verbatim>\<open>int\<close>s: 64 bits, read as signed.
\<close>

record FlatBatch =
  keys :: "bytes list"
  vals :: "bytes list"
  keysize :: "64 word"
  valsize :: "64 word"




text \<open>The loop of \<^verbatim>\<open>Write\<close>, from the index \<open>i\<close> on; an index out of range panics.\<close>

function Write_loop ::
  "nat \<Rightarrow> FlatBatch \<Rightarrow> FlatDatabase \<Rightarrow> world \<Rightarrow> (error option \<times> FlatDatabase \<times> world) option" where
  "Write_loop i fb db w =
     (if i < length (keys fb) then
        (if i < length (vals fb) then
           (case Put (keys fb ! i) (vals fb ! i) db w of
              None \<Rightarrow> None
            | Some (Some e, db1, w1) \<Rightarrow> Some (Some e, db1, w1)
            | Some (None, db1, w1) \<Rightarrow> Write_loop (i + 1) fb db1 w1)
         else None)
      else Some (None, db, w))"
  by pat_completeness auto
termination
  by (relation "measure (\<lambda>(i, fb, db, w). length (keys fb) - i)") auto

declare Write_loop.simps [simp del]

definition Batch_Write ::
  "FlatBatch \<Rightarrow> FlatDatabase \<Rightarrow> world \<Rightarrow> (error option \<times> FlatDatabase \<times> world) option" where
  "Batch_Write fb db w = Write_loop 0 fb db w"


section \<open>The iterator\<close>

text \<open>
  \<^verbatim>\<open>FlatIterator\<close> without its pointer to the engine. \<open>key\<close> and \<open>val\<close> are the bytes of the
  two views at the time \<^verbatim>\<open>Next\<close> returns.
\<close>

record FlatIterator =
  key :: bytes
  val :: bytes
  err :: "error option"
  eof :: bool

definition NewIterator ::
  "FlatDatabase \<Rightarrow> world \<Rightarrow> FlatIterator option \<times> FlatDatabase \<times> world" where
  "NewIterator db w =
     (if iterating db then (None, db, w)
      else
        (case file_Seek0 (data db) w of
           (f1, w1) \<Rightarrow>
             (case file_Seek0 (index db) w1 of
                (f2, w2) \<Rightarrow>
                  (Some \<lparr>key = [], val = [], err = None, eof = False\<rparr>,
                   db\<lparr>iterating := True, data := f1, index := f2, offset := 0,
                      buff := buff_reset (buff db)\<rparr>, w2))))"

text \<open>The second half of \<^verbatim>\<open>Next\<close>: one record is taken from the front of the buffer.\<close>

definition decode_front ::
  "FlatIterator \<Rightarrow> FlatDatabase \<Rightarrow> world \<Rightarrow> (bool \<times> FlatIterator \<times> FlatDatabase \<times> world) option" where
  "decode_front it db w =
     (case Uvarint (elems (buff db)) of
        (x, n) \<Rightarrow>
          if n \<le> 0 then Some (False, it, db, w)
          else do {
            ky \<leftarrow> slice_range (buff db) n (n + sint x);
            rest \<leftarrow> slice_from (buff db) (n + sint x);
            (case Uvarint (elems rest) of
               (y, m) \<Rightarrow>
                 if m \<le> 0 then Some (False, it, db, w)
                 else do {
                   vl \<leftarrow> slice_range (buff db) (n + sint x + m) (n + sint x + m + sint y);
                   b \<leftarrow> slice_from (buff db) (n + sint x + m + sint y);
                   Some (True, it\<lparr>key := ky, val := vl\<rparr>, db\<lparr>buff := b\<rparr>, w)
                 })
          })"

definition Next ::
  "FlatIterator \<Rightarrow> FlatDatabase \<Rightarrow> world \<Rightarrow> (bool \<times> FlatIterator \<times> FlatDatabase \<times> world) option" where
  "Next it db w =
     (if len (buff db) = 0 \<and> \<not> eof it then
        (case readChunk db w of
           None \<Rightarrow> None
         | Some (Some e, db1, w1) \<Rightarrow>
             if e = EOF then Some (False, it\<lparr>eof := True\<rparr>, db1, w1)
             else Some (False, it\<lparr>err := Some e\<rparr>, db1, w1)
         | Some (None, db1, w1) \<Rightarrow> decode_front it db1 w1)
      else decode_front it db w)"

definition Error :: "FlatIterator \<Rightarrow> error option" where
  "Error it = err it"

definition Key :: "FlatIterator \<Rightarrow> bytes" where
  "Key it = key it"

definition Value :: "FlatIterator \<Rightarrow> bytes" where
  "Value it = val it"

definition Release :: "FlatDatabase \<Rightarrow> FlatDatabase" where
  "Release db = db\<lparr>iterating := False\<rparr>"

section \<open>Sequences of calls\<close>

text \<open>
  \<open>put_all\<close> is the specification of writing pairs one after the other: one \<^verbatim>\<open>Put\<close> a pair,
  in the order of the list, stopping at the first \<^verbatim>\<open>Put\<close> that fails, with its error.
\<close>

fun put_all ::
  "(bytes \<times> bytes) list \<Rightarrow> FlatDatabase \<Rightarrow> world \<Rightarrow> (error option \<times> FlatDatabase \<times> world) option" where
  "put_all [] db w = Some (None, db, w)"
| "put_all ((k, v) # es) db w =
     (case Put k v db w of
        None \<Rightarrow> None
      | Some (Some e, db1, w1) \<Rightarrow> Some (Some e, db1, w1)
      | Some (None, db1, w1) \<Rightarrow> put_all es db1 w1)"

text \<open>
  A client of one engine makes calls one after the other, holding the iterator it was given
  last. \<open>step\<close> is one call, whatever it returns; \<open>run\<close> is a sequence of calls, \<open>None\<close>
  when one of them panics.
\<close>

datatype call =
    CallPut bytes bytes | CallCommit | CallClose | CallWrite FlatBatch
  | CallNewIterator | CallNext | CallRelease

type_synonym session = "FlatDatabase \<times> world \<times> FlatIterator option"

fun step :: "call \<Rightarrow> session \<Rightarrow> session option" where
  "step (CallPut k v) (db, w, it) =
     (case Put k v db w of None \<Rightarrow> None | Some (r, db1, w1) \<Rightarrow> Some (db1, w1, it))"
| "step CallCommit (db, w, it) = (case Commit db w of (r, db1, w1) \<Rightarrow> Some (db1, w1, it))"
| "step CallClose (db, w, it) = (case Close db w of (r, db1, w1) \<Rightarrow> Some (db1, w1, it))"
| "step (CallWrite fb) (db, w, it) =
     (case Batch_Write fb db w of None \<Rightarrow> None | Some (r, db1, w1) \<Rightarrow> Some (db1, w1, it))"
| "step CallNewIterator (db, w, it) =
     (case NewIterator db w of
        (None, db1, w1) \<Rightarrow> Some (db1, w1, it)
      | (Some it1, db1, w1) \<Rightarrow> Some (db1, w1, Some it1))"
| "step CallNext (db, w, None) = Some (db, w, None)"
| "step CallNext (db, w, Some it) =
     (case Next it db w of None \<Rightarrow> None | Some (b, it1, db1, w1) \<Rightarrow> Some (db1, w1, Some it1))"
| "step CallRelease (db, w, it) = Some (Release db, w, it)"

fun run :: "call list \<Rightarrow> session \<Rightarrow> session option" where
  "run [] s = Some s"
| "run (c # cs) s = (case step c s of None \<Rightarrow> None | Some s1 \<Rightarrow> run cs s1)"

section \<open>Concrete states\<close>

text \<open>
  An empty file system where no call fails, the engine \<^verbatim>\<open>NewFlatDatabase\<close> makes there in
  write mode, and the world it leaves.
\<close>

definition world0 :: world where
  "world0 = \<lparr>files = (\<lambda>p. None), dirs = {}, plan = [], trace = []\<rparr>"

definition db0 :: FlatDatabase where
  "db0 = \<lparr>path = ''db'',
      data = Some \<lparr>f_path = (''db'', ''tmp.db''), f_pos = 0, f_wronly = True, f_closed = False\<rparr>,
      index = Some \<lparr>f_path = (''db'', ''flat.index''), f_pos = 0, f_wronly = True, f_closed = False\<rparr>,
      read = False, buff = nil_slice, items = 0, iterating = False, offset = 0\<rparr>"

definition world1 :: world where
  "world1 = \<lparr>files = (\<lambda>p. if p = (''db'', ''tmp.db'') \<or> p = (''db'', ''flat.index'') then Some [] else None),
      dirs = {''db''}, plan = [],
      trace = [(OpMkdirAll ''db'', None), (OpOpen (''db'', ''tmp.db'') True, None),
               (OpOpen (''db'', ''flat.index'') True, None)]\<rparr>"

text \<open>The engine after \<^verbatim>\<open>Commit\<close> on \<open>db0\<close>, with nothing written, and the world then.\<close>

definition db0c :: FlatDatabase where
  "db0c = \<lparr>path = ''db'',
      data = Some \<lparr>f_path = (''db'', ''flat.db''), f_pos = 0, f_wronly = False, f_closed = False\<rparr>,
      index = Some \<lparr>f_path = (''db'', ''flat.index''), f_pos = 0, f_wronly = False, f_closed = False\<rparr>,
      read = True, buff = nil_slice, items = 0, iterating = False, offset = 0\<rparr>"

definition world1c :: world where
  "world1c = \<lparr>files = (\<lambda>p. if p = (''db'', ''flat.db'') then Some []
                            else if p = (''db'', ''flat.index'') then Some [0, 0, 0, 0, 0, 0, 0, 0]
                            else None),
      dirs = {''db''}, plan = [],
      trace = [(OpMkdirAll ''db'', None), (OpOpen (''db'', ''tmp.db'') True, None),
               (OpOpen (''db'', ''flat.index'') True, None),
               (OpWrite (Some (''db'', ''tmp.db'')) 0, None),
               (OpWrite (Some (''db'', ''flat.index'')) 8, None),
               (OpSync (Some (''db'', ''tmp.db'')), None),
               (OpSync (Some (''db'', ''flat.index'')), None),
               (OpClose (Some (''db'', ''tmp.db'')), None),
               (OpClose (Some (''db'', ''flat.index'')), None),
               (OpRename (''db'', ''tmp.db'') (''db'', ''flat.db''), None),
               (OpSyncDir ''db'', None), (OpOpen (''db'', ''flat.db'') False, None),
               (OpOpen (''db'', ''flat.index'') False, None)]\<rparr>"

text \<open>
  The iterator \<^verbatim>\<open>NewIterator\<close> returns, the committed engine \<open>db0c\<close> while it iterates, and a
  world after the two seeks \<^verbatim>\<open>NewIterator\<close> makes on that engine.
\<close>

definition it0 :: FlatIterator where
  "it0 = \<lparr>key = [], val = [], err = None, eof = False\<rparr>"

definition db0i :: FlatDatabase where
  "db0i = db0c\<lparr>iterating := True\<rparr>"

definition seek2 :: "world \<Rightarrow> world" where
  "seek2 w = w\<lparr>trace := trace w @ [(OpSeek (Some (''db'', ''flat.db'')), None),
                                     (OpSeek (Some (''db'', ''flat.index'')), None)]\<rparr>"


section \<open>The steps of Commit\<close>

text \<open>
  The calls of the \<^verbatim>\<open>os\<close> package that \<^verbatim>\<open>Commit\<close> makes on an engine, in the order of the
  source: the forced flush (the buffer to the data file, the offset to the index file), the
  two syncs, the two closes, the rename, the sync of the directory, the two files opened
  again for reading.
\<close>

definition commit_ops :: "FlatDatabase \<Rightarrow> io_op list" where
  "commit_ops db =
     [OpWrite (map_option f_path (data db)) (len (buff db)),
      OpWrite (map_option f_path (index db)) 8,
      OpSync (map_option f_path (data db)),
      OpSync (map_option f_path (index db)),
      OpClose (map_option f_path (data db)),
      OpClose (map_option f_path (index db)),
      OpRename (path db, temporaryName) (path db, syncedName),
      OpSyncDir (path db),
      OpOpen (path db, syncedName) False,
      OpOpen (path db, indexName) False]"

text \<open>
  \<open>steps_ok ops es r\<close>: the events \<open>es\<close> are the calls \<open>ops\<close> in order, as far as they go;
  either every call of \<open>ops\<close> was made and succeeded, and \<open>r\<close> is nil, or the last event is
  the first failure, no call after it was made, and \<open>r\<close> is its error.
\<close>

fun steps_ok :: "io_op list \<Rightarrow> event list \<Rightarrow> error option \<Rightarrow> bool" where
  "steps_ok [] [] r = (r = None)"
| "steps_ok (c # cs) [(c', Some e)] r = (c' = c \<and> r = Some e)"
| "steps_ok (c # cs) ((c', None) # es) r = (c' = c \<and> steps_ok cs es r)"
| "steps_ok cs es r = False"

section \<open>What is written and what is read back\<close>

text \<open>
  The record of a pair as the spec has it: the length of the key as a varint, the key, the
  length of the value as a varint, the value.
\<close>

definition enc_rec :: "bytes \<times> bytes \<Rightarrow> bytes" where
  "enc_rec e =
     uvarint_bytes (of_nat (length (fst e))) @ fst e @
     uvarint_bytes (of_nat (length (snd e))) @ snd e"

text \<open>
  The bytes \<^verbatim>\<open>Put\<close> appends to the buffer for a pair: it makes room for two prefixes of
  \<open>MaxVarintLen32\<close> bytes and the pair, and \<^verbatim>\<open>copy\<close> stores of the value what is left of
  that room after the two prefixes and the key.
\<close>

definition put_bytes :: "bytes \<Rightarrow> bytes \<Rightarrow> bytes" where
  "put_bytes k v =
     (let p1 = uvarint_bytes (of_nat (length k));
          p2 = uvarint_bytes (of_nat (length v))
      in p1 @ k @ p2 @ take (2 * MaxVarintLen32 + length v - length p1 - length p2) v)"

text \<open>The content of the buffer after the pairs \<open>es\<close> went into it, empty before.\<close>

definition buf_of :: "(bytes \<times> bytes) list \<Rightarrow> bytes" where
  "buf_of es = concat (map (\<lambda>e. put_bytes (fst e) (snd e)) es)"

text \<open>
  The flush policy, on pairs: a pair joins the pending ones, and they leave as one chunk as
  soon as their bytes reach \<open>chunkSize\<close>; what is pending at the end is the last chunk, the
  one the forced flush writes, empty or not.
\<close>

fun chunking :: "(bytes \<times> bytes) list \<Rightarrow> (bytes \<times> bytes) list \<Rightarrow> (bytes \<times> bytes) list list" where
  "chunking pend [] = [pend]"
| "chunking pend (e # es) =
     (if chunkSize \<le> length (buf_of (pend @ [e])) then (pend @ [e]) # chunking [] es
      else chunking (pend @ [e]) es)"

text \<open>The running sums of a list of sizes, from \<open>a\<close> on.\<close>

fun cumsums :: "nat \<Rightarrow> nat list \<Rightarrow> nat list" where
  "cumsums a [] = []"
| "cumsums a (n # ns) = (a + n) # cumsums (a + n) ns"

text \<open>An index file: the entries, each as 8 bytes, big-endian.\<close>

definition index_bytes :: "64 word list \<Rightarrow> bytes" where
  "index_bytes xs = concat (map PutUint64 xs)"

text \<open>
  The flush events of a trace: the sizes of the writes to the file \<open>f\<close> that succeeded, in
  order.
\<close>

fun data_writes :: "fpath \<Rightarrow> event list \<Rightarrow> nat list" where
  "data_writes f [] = []"
| "data_writes f ((OpWrite (Some g) n, None) # es) =
     (if g = f then n # data_writes f es else data_writes f es)"
| "data_writes f (e # es) = data_writes f es"

text \<open>
  An engine in write mode on the directory \<open>p\<close> in a world where nothing fails: \<open>d\<close> and
  \<open>ix\<close> are the contents of the temporary data file and of the index file, and both files
  are open for writing at their ends.
\<close>

definition wr_state :: "string \<Rightarrow> FlatDatabase \<Rightarrow> world \<Rightarrow> bytes \<Rightarrow> bytes \<Rightarrow> bool" where
  "wr_state p db w d ix \<longleftrightarrow>
     path db = p \<and> \<not> read db \<and> plan w = [] \<and>
     files w (p, temporaryName) = Some d \<and> files w (p, indexName) = Some ix \<and>
     data db = Some \<lparr>f_path = (p, temporaryName), f_pos = length d,
                      f_wronly = True, f_closed = False\<rparr> \<and>
     index db = Some \<lparr>f_path = (p, indexName), f_pos = length ix,
                       f_wronly = True, f_closed = False\<rparr>"

text \<open>
  An engine in read mode on the directory \<open>p\<close> in a world where nothing fails: \<open>d\<close> and
  \<open>ix\<close> are the contents of the data file and of the index file, both open for reading, at
  the positions \<open>dpos\<close> and \<open>ipos\<close>.
\<close>

definition rd_state ::
  "string \<Rightarrow> FlatDatabase \<Rightarrow> world \<Rightarrow> bytes \<Rightarrow> bytes \<Rightarrow> nat \<Rightarrow> nat \<Rightarrow> bool" where
  "rd_state p db w d ix dpos ipos \<longleftrightarrow>
     path db = p \<and> read db \<and> plan w = [] \<and>
     files w (p, syncedName) = Some d \<and> files w (p, indexName) = Some ix \<and>
     data db = Some \<lparr>f_path = (p, syncedName), f_pos = dpos,
                      f_wronly = False, f_closed = False\<rparr> \<and>
     index db = Some \<lparr>f_path = (p, indexName), f_pos = ipos,
                       f_wronly = False, f_closed = False\<rparr>"

text \<open>
  \<open>collect n\<close> calls \<^verbatim>\<open>Next\<close> \<open>n\<close> times and gives the pairs \<^verbatim>\<open>Key\<close> and \<^verbatim>\<open>Value\<close> return
  after each call; it is \<open>None\<close> when one of the calls returns false or panics.
\<close>

fun collect ::
  "nat \<Rightarrow> FlatIterator \<Rightarrow> FlatDatabase \<Rightarrow> world \<Rightarrow>
   ((bytes \<times> bytes) list \<times> FlatIterator \<times> FlatDatabase \<times> world) option" where
  "collect 0 it db w = Some ([], it, db, w)"
| "collect (Suc n) it db w =
     (case Next it db w of
        Some (True, it1, db1, w1) \<Rightarrow>
          (case collect n it1 db1 w1 of
             Some (kvs, s) \<Rightarrow> Some ((Key it1, Value it1) # kvs, s)
           | None \<Rightarrow> None)
      | _ \<Rightarrow> None)"

text \<open>
  The round trip of the pairs \<open>es\<close> in the directory \<open>p\<close> of the world \<open>w\<close>: the engine is
  made in write mode, every \<^verbatim>\<open>Put\<close> succeeds, \<^verbatim>\<open>Commit\<close> succeeds, \<^verbatim>\<open>NewIterator\<close> gives an
  iterator, as many calls of \<^verbatim>\<open>Next\<close> as there are pairs return true and give the pairs of
  \<open>es\<close> in their order, and the call after them returns false with no error.
\<close>

definition round_trip :: "string \<Rightarrow> world \<Rightarrow> (bytes \<times> bytes) list \<Rightarrow> bool" where
  "round_trip p w es =
     (case NewFlatDatabase p False w of
        (Inl e, w0) \<Rightarrow> False
      | (Inr db, w0) \<Rightarrow>
          (case put_all es db w0 of
             Some (None, db1, w1) \<Rightarrow>
               (case Commit db1 w1 of
                  (None, db2, w2) \<Rightarrow>
                    (case NewIterator db2 w2 of
                       (Some it, db3, w3) \<Rightarrow>
                         (case collect (length es) it db3 w3 of
                            Some (kvs, it4, db4, w4) \<Rightarrow>
                              kvs = es \<and>
                              (case Next it4 db4 w4 of
                                 Some (b, it5, db5, w5) \<Rightarrow> \<not> b \<and> Error it5 = None
                               | None \<Rightarrow> False)
                          | None \<Rightarrow> False)
                     | (None, db3, w3) \<Rightarrow> False)
                | (Some e, db2, w2) \<Rightarrow> False)
           | _ \<Rightarrow> False))"

text \<open>
  \<open>put_each\<close> calls \<^verbatim>\<open>Put\<close> on every pair, whatever the calls return, and gives what they
  returned.
\<close>

fun put_each ::
  "(bytes \<times> bytes) list \<Rightarrow> FlatDatabase \<Rightarrow> world \<Rightarrow>
   (error option list \<times> FlatDatabase \<times> world) option" where
  "put_each [] db w = Some ([], db, w)"
| "put_each ((k, v) # es) db w =
     (case Put k v db w of
        None \<Rightarrow> None
      | Some (r, db1, w1) \<Rightarrow>
          (case put_each es db1 w1 of
             None \<Rightarrow> None
           | Some (rs, s) \<Rightarrow> Some (r # rs, s)))"

text \<open>
  One run of the kind the empty database is about: an engine is made in write mode in the
  directory \<open>p\<close> of the world \<open>w\<close>, \<^verbatim>\<open>Put\<close> is called on every pair of \<open>es\<close>, then \<^verbatim>\<open>Commit\<close>,
  \<^verbatim>\<open>NewIterator\<close> and \<^verbatim>\<open>Next\<close>, once. The result has what every \<^verbatim>\<open>Put\<close> returned, the failures
  still scheduled when \<^verbatim>\<open>Commit\<close> is called, what \<^verbatim>\<open>Commit\<close> returned, what \<^verbatim>\<open>Next\<close> returned,
  and what \<^verbatim>\<open>Error\<close>, \<^verbatim>\<open>Key\<close> and \<^verbatim>\<open>Value\<close> return after it; it is \<open>None\<close> when the engine
  cannot be made, when no iterator is given or when a call panics.
\<close>

definition first_Next_after_Commit ::
  "string \<Rightarrow> world \<Rightarrow> (bytes \<times> bytes) list \<Rightarrow>
   (error option list \<times> error option list \<times> error option \<times> bool \<times> error option \<times> bytes \<times> bytes) option" where
  "first_Next_after_Commit p w es =
     (case NewFlatDatabase p False w of
        (Inl e, w0) \<Rightarrow> None
      | (Inr db, w0) \<Rightarrow>
          (case put_each es db w0 of
             None \<Rightarrow> None
           | Some (rs, db1, w1) \<Rightarrow>
               (case Commit db1 w1 of
                  (c, db2, w2) \<Rightarrow>
                    (case NewIterator db2 w2 of
                       (None, db3, w3) \<Rightarrow> None
                     | (Some it, db3, w3) \<Rightarrow>
                         (case Next it db3 w3 of
                            None \<Rightarrow> None
                          | Some (b, it4, db4, w4) \<Rightarrow>
                              Some (rs, plan w1, c, b, Error it4, Key it4, Value it4))))))"

text \<open>
  The state of a write phase that began when the trace had \<open>t0\<close> events: the chunks \<open>G\<close>
  were flushed, the pairs \<open>pend\<close> are in the buffer, the index file holds the running byte
  counts of the chunks, and the writes to the data file since the beginning are one a chunk.
\<close>

definition write_inv ::
  "string \<Rightarrow> nat \<Rightarrow> FlatDatabase \<Rightarrow> world \<Rightarrow> (bytes \<times> bytes) list list \<Rightarrow>
   (bytes \<times> bytes) list \<Rightarrow> bool" where
  "write_inv p t0 db w G pend \<longleftrightarrow>
     wr_state p db w (concat (map buf_of G))
       (index_bytes (map of_nat (cumsums 0 (map (\<lambda>g. length (buf_of g)) G)))) \<and>
     elems (buff db) = buf_of pend \<and>
     offset db = of_nat (length (concat (map buf_of G)) + length (buf_of pend)) \<and>
     t0 \<le> length (trace w) \<and>
     data_writes (p, temporaryName) (drop t0 (trace w)) = map (\<lambda>g. length (buf_of g)) G \<and>
     length (buf_of pend) < chunkSize"

text \<open>
  The state of an iteration: the pairs \<open>cur\<close> are still in the buffer and the chunks \<open>rest\<close>
  still in the files, after the bytes the iteration has consumed from each of them.
\<close>

definition read_inv ::
  "string \<Rightarrow> FlatDatabase \<Rightarrow> world \<Rightarrow> (bytes \<times> bytes) list \<Rightarrow>
   (bytes \<times> bytes) list list \<Rightarrow> bool" where
  "read_inv p db w cur rest \<longleftrightarrow>
     (\<exists>dc ic.
        rd_state p db w (dc @ concat (map buf_of rest))
          (ic @ index_bytes (map of_nat (cumsums (length dc) (map (\<lambda>g. length (buf_of g)) rest))))
          (length dc) (length ic) \<and>
        offset db = of_nat (length dc) \<and> elems (buff db) = buf_of cur)"

text \<open>
  A pair that fits: key and value are not empty, and the room \<^verbatim>\<open>Put\<close> makes for the pair,
  added to a buffer that is not yet a chunk, stays within what one \<^verbatim>\<open>Read\<close> transfers. Key
  and value are then shorter than \<open>2 ^ 35\<close> bytes, so that each length takes a prefix of
  \<open>MaxVarintLen32\<close> bytes at most.
\<close>

definition fits :: "bytes \<times> bytes \<Rightarrow> bool" where
  "fits e \<longleftrightarrow>
     fst e \<noteq> [] \<and> snd e \<noteq> [] \<and>
     chunkSize + (2 * MaxVarintLen32 + length (fst e) + length (snd e)) \<le> maxRW"

section \<open>Rejected calls\<close>

lemma NewFlatDatabase_world0: "NewFlatDatabase ''db'' False world0 = (Inr db0, world1)"
  by (auto simp: NewFlatDatabase_def os_MkdirAll_def os_OpenFile_def pop_fault_def log_ev_def
      world0_def db0_def world1_def temporaryName_def indexName_def parents_def)

text \<open>
  C6. A \<^verbatim>\<open>Put\<close> with an empty key or an empty value returns \<^verbatim>\<open>ErrEmptyEntry\<close> and leaves the
  engine and the files exactly as they were: the buffer, both streams, the count of pending
  items and the running offset are those of before the call.
\<close>

theorem Put_empty_entry_no_mutation:
  "k = [] \<or> v = [] \<Longrightarrow> Put k v db w = Some (Some ErrEmptyEntry, db, w)"
  by (auto simp: Put_def)

theorem Put_empty_entry_no_mutation_witness:
  "(([] :: bytes) = [] \<or> [1 :: byte] = []) \<and>
   Put [] [1] db0 world1 = Some (Some ErrEmptyEntry, db0, world1) \<and>
   Put [1] [] db0 world1 = Some (Some ErrEmptyEntry, db0, world1)"
  using Put_empty_entry_no_mutation [of "[]" "[1]" db0 world1]
    Put_empty_entry_no_mutation [of "[1]" "[]" db0 world1]
  by simp

lemmas os_defs = os_MkdirAll_def os_OpenFile_def file_Write_def file_Read_def file_Seek0_def
  file_Sync_def file_Close_def rename_def syncDir_def pop_fault_def log_ev_def file_invalid_def
  pwrite_def

lemmas const_defs = temporaryName_def syncedName_def indexName_def chunkSize_def
  bufferGrowRec_def MaxVarintLen32_def maxRW_def

lemmas slice_defs = nil_slice_def len_def cap_def make_bytes_def slice_to_def buff_reset_def
  slice_from_def slice_range_def write_at_def copy_to_def

lemmas engine_defs = Commit_def closeNoLock_def Close_def writeChunk_def readChunk_def grow_def
  NewIterator_def Next_def decode_front_def Release_def Error_def Key_def Value_def

lemma Commit_db0: "Commit db0 world1 = (None, db0c, world1c)"
  by (simp add: engine_defs os_defs const_defs slice_defs db0_def world1_def db0c_def
      world1c_def PutUint64_def fun_eq_iff)

text \<open>
  C10. In every state of the engine, a committed one too, a \<^verbatim>\<open>Put\<close> with an empty key or an
  empty value returns \<^verbatim>\<open>ErrEmptyEntry\<close>: the check of the entry comes before the check of the
  mode, so the error is never \<^verbatim>\<open>ErrReadOnly\<close>.
\<close>

theorem Put_empty_before_read_only:
  "k = [] \<or> v = [] \<Longrightarrow>
   map_option fst (Put k v db w) = Some (Some ErrEmptyEntry) \<and>
   map_option fst (Put k v db w) \<noteq> Some (Some ErrReadOnly)"
  by (auto simp: Put_def)

theorem Put_empty_before_read_only_witness:
  "(([] :: bytes) = [] \<or> [7 :: byte] = []) \<and> read db0c \<and>
   Commit db0 world1 = (None, db0c, world1c) \<and>
   map_option fst (Put [] [7] db0c world1c) = Some (Some ErrEmptyEntry) \<and>
   map_option fst (Put [] [7] db0c world1c) \<noteq> Some (Some ErrReadOnly)"
  using Put_empty_before_read_only [of "[]" "[7]" db0c world1c] Commit_db0
  by (simp add: db0c_def)

section \<open>Opening a missing database\<close>

text \<open>
  C9. Opening a location in read mode fails when the committed data file or the index file
  is not there, whatever fails or not in the system, and the files of the world are the same
  after the call as before: none is created. The directories are the same too, but for the
  location itself and the directories above it, which \<^verbatim>\<open>os.MkdirAll\<close> makes when they are
  missing.
\<close>

theorem NewFlatDatabase_read_missing:
  "files w (p, syncedName) = None \<or> files w (p, indexName) = None \<Longrightarrow>
   (\<exists>e. fst (NewFlatDatabase p True w) = Inl e) \<and>
   files (snd (NewFlatDatabase p True w)) = files w \<and>
   dirs (snd (NewFlatDatabase p True w)) \<subseteq> insert p (set (parents p) \<union> dirs w)"
  by (auto simp: NewFlatDatabase_def os_MkdirAll_def os_OpenFile_def pop_fault_def log_ev_def
      split: list.splits option.splits prod.splits sum.splits)

theorem NewFlatDatabase_read_missing_witness:
  "(files world0 (''db'', syncedName) = None \<or> files world0 (''db'', indexName) = None) \<and>
   fst (NewFlatDatabase ''db'' True world0) = Inl ErrNotExist \<and>
   files (snd (NewFlatDatabase ''db'' True world0)) = files world0 \<and>
   dirs (snd (NewFlatDatabase ''db'' True world0)) = {''db''}"
  using NewFlatDatabase_read_missing [of world0 "''db''"]
  by (simp add: NewFlatDatabase_def os_MkdirAll_def os_OpenFile_def pop_fault_def log_ev_def
      world0_def parents_def)

section \<open>The mode never goes back\<close>

lemma Commit_read:
  "Commit db w = (None, db1, w1) \<Longrightarrow> read db1"
  by (auto simp: Commit_def Let_def split: prod.splits option.splits sum.splits)

lemma writeChunk_read: "writeChunk f db w = (r, db1, w1) \<Longrightarrow> read db1 = read db"
  by (auto simp: writeChunk_def Let_def split: prod.splits option.splits if_splits)

lemma closeNoLock_read: "closeNoLock db w = (r, db1, w1) \<Longrightarrow> read db1 = read db"
  by (auto simp: closeNoLock_def Let_def split: prod.splits option.splits dest: writeChunk_read)

lemma Commit_keeps_read: "read db \<Longrightarrow> Commit db w = (r, db1, w1) \<Longrightarrow> read db1"
  by (auto simp: Commit_def Let_def split: prod.splits option.splits sum.splits
      dest: closeNoLock_read)

lemma Put_read: "read db \<Longrightarrow> Put k v db w = Some (r, db1, w1) \<Longrightarrow> db1 = db \<and> w1 = w"
  by (auto simp: Put_def split: if_splits)

lemma Write_loop_read: "read db \<Longrightarrow> Write_loop i fb db w = Some (r, db1, w1) \<Longrightarrow> read db1"
proof (induction i fb db w rule: Write_loop.induct)
  case (1 i fb db w)
  show ?case
  proof (cases "i < length (keys fb) \<and> i < length (vals fb)")
    case True
    show ?thesis
    proof (cases "Put (keys fb ! i) (vals fb ! i) db w")
      case None
      with True "1.prems" show ?thesis
        using Write_loop.simps [of i fb db w] by simp
    next
      case (Some res)
      obtain r2 db2 w2 where res: "res = (r2, db2, w2)" by (cases res)
      have same: "db2 = db \<and> w2 = w" using Put_read [OF "1.prems"(1)] Some res by simp
      show ?thesis
      proof (cases r2)
        case None
        then have "Write_loop (i + 1) fb db2 w2 = Some (r, db1, w1)"
          using True Some res "1.prems"(2) Write_loop.simps [of i fb db w] by simp
        then show ?thesis
          using "1.IH" [of "(r2, db2, w2)" r2 "(db2, w2)" db2 w2] True Some res None same "1.prems"(1)
          by simp
      next
        case (Some e)
        then show ?thesis
          using True \<open>Put (keys fb ! i) (vals fb ! i) db w = Some res\<close> res "1.prems"
            Write_loop.simps [of i fb db w] same by auto
      qed
    qed
  next
    case False
    with "1.prems" show ?thesis
      using Write_loop.simps [of i fb db w] by (auto split: if_splits)
  qed
qed

lemma grow_read [simp]: "read (grow n db) = read db"
  by (simp add: grow_def Let_def)

lemma readChunk_read: "readChunk db w = Some (r, db1, w1) \<Longrightarrow> read db1 = read db"
  by (auto simp: readChunk_def Let_def split: prod.splits option.splits if_splits)

lemma decode_front_read: "decode_front it db w = Some (b, it1, db1, w1) \<Longrightarrow> read db1 = read db"
  by (auto simp: decode_front_def Let_def split: prod.splits option.splits if_splits Option.bind_splits)

lemma Next_read: "Next it db w = Some (b, it1, db1, w1) \<Longrightarrow> read db1 = read db"
  by (auto simp: Next_def split: prod.splits option.splits if_splits dest: readChunk_read decode_front_read)

lemma NewIterator_read: "NewIterator db w = (r, db1, w1) \<Longrightarrow> read db1 = read db"
  by (auto simp: NewIterator_def split: prod.splits if_splits)

lemma step_read: "read db \<Longrightarrow> step c (db, w, it) = Some (db1, w1, it1) \<Longrightarrow> read db1"
proof (cases c)
  case (CallPut k v)
  then show "read db \<Longrightarrow> step c (db, w, it) = Some (db1, w1, it1) \<Longrightarrow> read db1"
    by (auto split: option.splits dest: Put_read)
next
  case CallCommit
  then show "read db \<Longrightarrow> step c (db, w, it) = Some (db1, w1, it1) \<Longrightarrow> read db1"
    by (auto split: prod.splits dest: Commit_keeps_read)
next
  case CallClose
  then show "read db \<Longrightarrow> step c (db, w, it) = Some (db1, w1, it1) \<Longrightarrow> read db1"
    by (auto simp: Close_def split: prod.splits dest: closeNoLock_read)
next
  case (CallWrite fb)
  then show "read db \<Longrightarrow> step c (db, w, it) = Some (db1, w1, it1) \<Longrightarrow> read db1"
    by (auto simp: Batch_Write_def split: option.splits dest: Write_loop_read)
next
  case CallNewIterator
  then show "read db \<Longrightarrow> step c (db, w, it) = Some (db1, w1, it1) \<Longrightarrow> read db1"
    by (auto split: prod.splits option.splits dest: NewIterator_read)
next
  case CallNext
  then show "read db \<Longrightarrow> step c (db, w, it) = Some (db1, w1, it1) \<Longrightarrow> read db1"
    by (cases it) (auto split: option.splits dest: Next_read)
next
  case CallRelease
  then show "read db \<Longrightarrow> step c (db, w, it) = Some (db1, w1, it1) \<Longrightarrow> read db1"
    by (auto simp: Release_def)
qed

lemma run_read: "read (fst s) \<Longrightarrow> run cs s = Some s1 \<Longrightarrow> read (fst s1)"
proof (induction cs arbitrary: s)
  case Nil
  then show ?case by simp
next
  case (Cons c cs)
  obtain db w it where s: "s = (db, w, it)" by (cases s)
  from Cons.prems obtain s2 where st: "step c s = Some s2" and r: "run cs s2 = Some s1"
    by (auto split: option.splits)
  obtain db2 w2 it2 where s2: "s2 = (db2, w2, it2)" by (cases s2)
  have "read db2" using step_read [of db c w it db2 w2 it2] Cons.prems(1) st s s2 by simp
  then show ?case using Cons.IH [of s2] r s2 by simp
qed

text \<open>
  C5. Once \<^verbatim>\<open>Commit\<close> has succeeded, whatever calls are made on the engine afterwards, a
  \<^verbatim>\<open>Put\<close> with a non-empty key and a non-empty value fails with \<^verbatim>\<open>ErrReadOnly\<close> and changes
  nothing: no call takes the engine back to write mode.
\<close>

theorem Put_after_Commit_read_only:
  assumes "Commit db w = (None, db1, w1)"
    and "run cs (db1, w1, it) = Some (db2, w2, it2)"
    and "k \<noteq> []" and "v \<noteq> []"
  shows "Put k v db2 w2 = Some (Some ErrReadOnly, db2, w2)"
proof -
  have "read db1" using assms(1) by (rule Commit_read)
  then have "read db2" using run_read [of "(db1, w1, it)" cs "(db2, w2, it2)"] assms(2) by simp
  then show ?thesis using assms(3,4) by (simp add: Put_def)
qed

theorem Put_after_Commit_read_only_witness:
  "Commit db0 world1 = (None, db0c, world1c) \<and>
   (\<exists>db2 w2 it2.
      run [CallNewIterator, CallNext, CallRelease, CallPut [1] [2], CallCommit, CallClose]
        (db0c, world1c, None) = Some (db2, w2, it2) \<and>
      [1 :: byte] \<noteq> [] \<and> [2 :: byte] \<noteq> [] \<and>
      Put [1] [2] db2 w2 = Some (Some ErrReadOnly, db2, w2))"
proof -
  obtain db2 w2 it2 where r:
    "run [CallNewIterator, CallNext, CallRelease, CallPut [1] [2], CallCommit, CallClose]
       (db0c, world1c, None) = Some (db2, w2, it2)"
    by (simp add: engine_defs os_defs const_defs slice_defs db0c_def world1c_def Put_def
        Uint64_def Uvarint_def Let_def)
  show ?thesis
    using Put_after_Commit_read_only [OF Commit_db0 r, of "[1]" "[2]"] Commit_db0 r by simp
qed


section \<open>One iterator at a time\<close>

lemma writeChunk_iterating: "writeChunk f db w = (r, db1, w1) \<Longrightarrow> iterating db1 = iterating db"
  by (auto simp: writeChunk_def Let_def split: prod.splits option.splits if_splits)

lemma closeNoLock_iterating: "closeNoLock db w = (r, db1, w1) \<Longrightarrow> iterating db1 = iterating db"
  by (auto simp: closeNoLock_def Let_def split: prod.splits option.splits dest: writeChunk_iterating)

lemma Commit_iterating: "Commit db w = (r, db1, w1) \<Longrightarrow> iterating db1 = iterating db"
  by (auto simp: Commit_def Let_def split: prod.splits option.splits sum.splits
      dest: closeNoLock_iterating)

lemma grow_iterating [simp]: "iterating (grow n db) = iterating db"
  by (simp add: grow_def Let_def)

lemma Put_iterating: "Put k v db w = Some (r, db1, w1) \<Longrightarrow> iterating db1 = iterating db"
  by (auto simp: Put_def Let_def split: if_splits Option.bind_splits prod.splits dest!: writeChunk_iterating)

lemma Write_loop_iterating:
  "Write_loop i fb db w = Some (r, db1, w1) \<Longrightarrow> iterating db1 = iterating db"
proof (induction i fb db w rule: Write_loop.induct)
  case (1 i fb db w)
  show ?case
  proof (cases "i < length (keys fb) \<and> i < length (vals fb)")
    case True
    show ?thesis
    proof (cases "Put (keys fb ! i) (vals fb ! i) db w")
      case None
      with True "1.prems" show ?thesis
        using Write_loop.simps [of i fb db w] by simp
    next
      case (Some res)
      obtain r2 db2 w2 where res: "res = (r2, db2, w2)" by (cases res)
      have same: "iterating db2 = iterating db" using Put_iterating Some res by blast
      show ?thesis
      proof (cases r2)
        case None
        then have "Write_loop (i + 1) fb db2 w2 = Some (r, db1, w1)"
          using True Some res "1.prems" Write_loop.simps [of i fb db w] by simp
        then show ?thesis
          using "1.IH" [of "(r2, db2, w2)" r2 "(db2, w2)" db2 w2] True Some res None same
          by simp
      next
        case (Some e)
        then show ?thesis
          using True \<open>Put (keys fb ! i) (vals fb ! i) db w = Some res\<close> res "1.prems"
            Write_loop.simps [of i fb db w] same by auto
      qed
    qed
  next
    case False
    with "1.prems" show ?thesis
      using Write_loop.simps [of i fb db w] by (auto split: if_splits)
  qed
qed

lemma readChunk_iterating: "readChunk db w = Some (r, db1, w1) \<Longrightarrow> iterating db1 = iterating db"
  by (auto simp: readChunk_def Let_def split: prod.splits option.splits if_splits)

lemma decode_front_iterating:
  "decode_front it db w = Some (b, it1, db1, w1) \<Longrightarrow> iterating db1 = iterating db"
  by (auto simp: decode_front_def Let_def split: prod.splits option.splits if_splits Option.bind_splits)

lemma Next_iterating: "Next it db w = Some (b, it1, db1, w1) \<Longrightarrow> iterating db1 = iterating db"
  by (auto simp: Next_def split: prod.splits option.splits if_splits
      dest: readChunk_iterating decode_front_iterating)

lemma NewIterator_iterating: "NewIterator db w = (r, db1, w1) \<Longrightarrow> iterating db1"
  by (auto simp: NewIterator_def split: prod.splits if_splits)

lemma step_iterating:
  "iterating db \<Longrightarrow> c \<noteq> CallRelease \<Longrightarrow> step c (db, w, it) = Some (db1, w1, it1) \<Longrightarrow> iterating db1"
proof (cases c)
  case (CallPut k v)
  then show "step c (db, w, it) = Some (db1, w1, it1) \<Longrightarrow> iterating db \<Longrightarrow> iterating db1"
    by (auto split: option.splits dest: Put_iterating)
next
  case CallCommit
  then show "step c (db, w, it) = Some (db1, w1, it1) \<Longrightarrow> iterating db \<Longrightarrow> iterating db1"
    by (auto split: prod.splits dest: Commit_iterating)
next
  case CallClose
  then show "step c (db, w, it) = Some (db1, w1, it1) \<Longrightarrow> iterating db \<Longrightarrow> iterating db1"
    by (auto simp: Close_def split: prod.splits dest: closeNoLock_iterating)
next
  case (CallWrite fb)
  then show "step c (db, w, it) = Some (db1, w1, it1) \<Longrightarrow> iterating db \<Longrightarrow> iterating db1"
    by (auto simp: Batch_Write_def split: option.splits dest: Write_loop_iterating)
next
  case CallNewIterator
  then show "step c (db, w, it) = Some (db1, w1, it1) \<Longrightarrow> iterating db \<Longrightarrow> iterating db1"
    by (auto split: prod.splits option.splits dest: NewIterator_iterating)
next
  case CallNext
  then show "step c (db, w, it) = Some (db1, w1, it1) \<Longrightarrow> iterating db \<Longrightarrow> iterating db1"
    by (cases it) (auto split: option.splits dest: Next_iterating)
next
  case CallRelease
  then show "c \<noteq> CallRelease \<Longrightarrow> iterating db1"
    by simp
qed

lemma run_iterating:
  "iterating (fst s) \<Longrightarrow> CallRelease \<notin> set cs \<Longrightarrow> run cs s = Some s1 \<Longrightarrow> iterating (fst s1)"
proof (induction cs arbitrary: s)
  case Nil
  then show ?case by simp
next
  case (Cons c cs)
  obtain db w it where s: "s = (db, w, it)" by (cases s)
  from Cons.prems obtain s2 where st: "step c s = Some s2" and r: "run cs s2 = Some s1"
    by (auto split: option.splits)
  obtain db2 w2 it2 where s2: "s2 = (db2, w2, it2)" by (cases s2)
  have "iterating db2"
    using step_iterating [of db c w it db2 w2 it2] Cons.prems(1,2) st s s2 by auto
  then show ?case using Cons.IH [of s2] r s2 Cons.prems(2) by simp
qed

text \<open>
  What the flag of the engine gives. From the moment \<^verbatim>\<open>NewIterator\<close> has given an iterator,
  and as long as \<^verbatim>\<open>Release\<close> is not called, on any iterator of the engine, every
  \<^verbatim>\<open>NewIterator\<close> returns nil and changes nothing, whatever other calls are made; after a
  \<^verbatim>\<open>Release\<close> the next \<^verbatim>\<open>NewIterator\<close> gives an iterator.
\<close>

theorem NewIterator_exclusive:
  assumes "NewIterator db w = (Some it, db1, w1)"
    and "CallRelease \<notin> set cs"
    and "run cs (db1, w1, Some it) = Some (db2, w2, it2)"
  shows "NewIterator db2 w2 = (None, db2, w2) \<and>
         (\<exists>it3 db3 w3. NewIterator (Release db2) w2 = (Some it3, db3, w3))"
proof -
  have "iterating db1" using assms(1) by (rule NewIterator_iterating)
  then have "iterating db2"
    using run_iterating [of "(db1, w1, Some it)" cs "(db2, w2, it2)"] assms(2,3) by simp
  then have "NewIterator db2 w2 = (None, db2, w2)" by (simp add: NewIterator_def)
  moreover have "\<exists>it3 db3 w3. NewIterator (Release db2) w2 = (Some it3, db3, w3)"
    by (simp add: NewIterator_def Release_def split: prod.splits)
  ultimately show ?thesis by simp
qed

theorem NewIterator_exclusive_witness:
  "\<exists>it db1 w1 db2 w2 it2.
     NewIterator db0c world1c = (Some it, db1, w1) \<and>
     CallRelease \<notin> set [CallNext, CallNewIterator, CallPut [1] [2], CallNext] \<and>
     run [CallNext, CallNewIterator, CallPut [1] [2], CallNext] (db1, w1, Some it) =
       Some (db2, w2, it2) \<and>
     NewIterator db2 w2 = (None, db2, w2) \<and>
     (\<exists>it3 db3 w3. NewIterator (Release db2) w2 = (Some it3, db3, w3))"
proof -
  obtain it db1 w1 where n: "NewIterator db0c world1c = (Some it, db1, w1)"
    by (simp add: engine_defs os_defs slice_defs db0c_def world1c_def)
  have c: "CallRelease \<notin> set [CallNext, CallNewIterator, CallPut [1] [2], CallNext]"
    by simp
  have "\<exists>s. run [CallNext, CallNewIterator, CallPut [1] [2], CallNext] (db1, w1, Some it) = Some s"
    using n
    by (auto simp: engine_defs os_defs const_defs slice_defs db0c_def world1c_def Put_def
        Uint64_def Uvarint_def Let_def)
  then obtain db2 w2 it2 where r:
    "run [CallNext, CallNewIterator, CallPut [1] [2], CallNext] (db1, w1, Some it) =
       Some (db2, w2, it2)"
    by (metis prod_cases3)
  show ?thesis
    using NewIterator_exclusive [OF n c r] n c r by blast
qed


text \<open>
  C7. The claim fails on the code when \<^verbatim>\<open>Release\<close> is called again on an iterator that was
  released. \<^verbatim>\<open>Release\<close> clears the flag of the engine its iterator points to and reads nothing
  else of the iterator, which is why \<open>Release\<close> has the engine as its only argument here. On
  the committed engine \<open>db0c\<close>: \<^verbatim>\<open>NewIterator\<close> gives a first iterator and sets the flag;
  \<^verbatim>\<open>Release\<close> on it clears the flag; \<^verbatim>\<open>NewIterator\<close> gives a second iterator and sets the flag,
  and as long as nothing else is called a further \<^verbatim>\<open>NewIterator\<close> returns nil; \<^verbatim>\<open>Release\<close> is
  then called a second time on the first iterator, which clears the flag again, and
  \<^verbatim>\<open>NewIterator\<close> gives a third iterator, although the second one is open and was never
  released.
\<close>

theorem NewIterator_after_repeated_Release:
  "NewIterator db0c world1c = (Some it0, db0i, seek2 world1c) \<and>
   Release db0i = db0c \<and>
   NewIterator db0c (seek2 world1c) = (Some it0, db0i, seek2 (seek2 world1c)) \<and>
   NewIterator db0i (seek2 (seek2 world1c)) = (None, db0i, seek2 (seek2 world1c)) \<and>
   NewIterator db0c (seek2 (seek2 world1c)) = (Some it0, db0i, seek2 (seek2 (seek2 world1c)))"
  by (simp add: NewIterator_def Release_def file_Seek0_def pop_fault_def log_ev_def
      buff_reset_def nil_slice_def it0_def db0i_def seek2_def db0c_def world1c_def)

section \<open>The batch\<close>







section \<open>Commit, step by step\<close>

lemma steps_ok_append_fail:
  "steps_ok ops1 es1 (Some e) \<Longrightarrow> steps_ok (ops1 @ ops2) es1 (Some e)"
  by (induction ops1 es1 "Some e :: error option" rule: steps_ok.induct) auto

lemma steps_ok_append_ok:
  "steps_ok ops1 es1 None \<Longrightarrow> steps_ok ops2 es2 r \<Longrightarrow> steps_ok (ops1 @ ops2) (es1 @ es2) r"
proof (induction ops1 es1 "None :: error option" rule: steps_ok.induct)
  case 1
  then show ?case by simp
next
  case (2 c cs c' e)
  then show ?case by simp
next
  case (3 c cs c' es)
  then show ?case by (cases "es @ es2") auto
qed auto

lemma steps_ok_prefix:
  "steps_ok ops es r \<Longrightarrow>
   map fst es = take (length es) ops \<and> (\<forall>x \<in> set (butlast es). snd x = None) \<and>
   (r = None \<longrightarrow> length es = length ops \<and> (\<forall>x \<in> set es. snd x = None)) \<and>
   (\<forall>e. r = Some e \<longrightarrow> es \<noteq> [] \<and> snd (last es) = Some e)"
  by (induction ops es r rule: steps_ok.induct) auto

lemma file_Write_trace:
  "file_Write f bs w = (n, r, f1, w1) \<Longrightarrow>
   trace w1 = trace w @ [(OpWrite (map_option f_path f) (length bs), r)] \<and>
   map_option f_path f1 = map_option f_path f \<and> (r = None \<longrightarrow> n = length bs)"
  by (auto simp: file_Write_def pop_fault_def log_ev_def Let_def
      split: list.splits option.splits if_splits)

lemma file_Sync_trace:
  "file_Sync f w = (r, w1) \<Longrightarrow> trace w1 = trace w @ [(OpSync (map_option f_path f), r)]"
  by (auto simp: file_Sync_def pop_fault_def log_ev_def Let_def
      split: list.splits option.splits if_splits)

lemma file_Close_trace:
  "file_Close f w = (r, f1, w1) \<Longrightarrow>
   trace w1 = trace w @ [(OpClose (map_option f_path f), r)] \<and>
   map_option f_path f1 = map_option f_path f"
  by (auto simp: file_Close_def pop_fault_def log_ev_def Let_def
      split: list.splits option.splits if_splits)

lemma rename_trace:
  "rename p q w = (r, w1) \<Longrightarrow> trace w1 = trace w @ [(OpRename p q, r)]"
  by (auto simp: rename_def pop_fault_def log_ev_def split: list.splits option.splits)

lemma syncDir_trace:
  "syncDir p w = (r, w1) \<Longrightarrow> trace w1 = trace w @ [(OpSyncDir p, r)]"
  by (auto simp: syncDir_def pop_fault_def log_ev_def split: list.splits option.splits)

lemma os_OpenFile_trace:
  "os_OpenFile p wr w = (r, w1) \<Longrightarrow>
   trace w1 = trace w @ [(OpOpen p wr, case r of Inl e \<Rightarrow> Some e | Inr h \<Rightarrow> None)]"
  by (auto simp: os_OpenFile_def pop_fault_def log_ev_def
      split: list.splits option.splits if_splits)

lemma writeChunk_force_steps:
  assumes "writeChunk True db w = (r, db1, w1)"
  shows "\<exists>es. trace w1 = trace w @ es \<and>
      steps_ok [OpWrite (map_option f_path (data db)) (len (buff db)),
                OpWrite (map_option f_path (index db)) 8] es r"
    and "map_option f_path (data db1) = map_option f_path (data db)"
    and "map_option f_path (index db1) = map_option f_path (index db)"
    and "path db1 = path db"
  using assms
  by (auto simp: writeChunk_def Let_def len_def PutUint64_def
      split: prod.splits option.splits if_splits dest!: file_Write_trace)

lemma closeNoLock_steps:
  assumes "closeNoLock db w = (r, db1, w1)"
  shows "\<exists>es. trace w1 = trace w @ es \<and> steps_ok (take 6 (commit_ops db)) es r"
    and "path db1 = path db"
proof -
  obtain r0 db0' w0' where wc: "writeChunk True db w = (r0, db0', w0')"
    by (cases "writeChunk True db w") auto
  note f = writeChunk_force_steps [OF wc]
  from f(1) obtain es0 where es0: "trace w0' = trace w @ es0"
    "steps_ok [OpWrite (map_option f_path (data db)) (len (buff db)),
               OpWrite (map_option f_path (index db)) 8] es0 r0" by blast
  let ?rest = "[OpSync (map_option f_path (data db)), OpSync (map_option f_path (index db)),
      OpClose (map_option f_path (data db)), OpClose (map_option f_path (index db))]"
  have split_ops: "take 6 (commit_ops db) =
      [OpWrite (map_option f_path (data db)) (len (buff db)),
       OpWrite (map_option f_path (index db)) 8] @ ?rest"
    by (simp add: commit_ops_def)
  show "path db1 = path db"
    using assms wc f(4)
    by (auto simp: closeNoLock_def split: prod.splits option.splits)
  show "\<exists>es. trace w1 = trace w @ es \<and> steps_ok (take 6 (commit_ops db)) es r"
  proof (cases r0)
    case (Some e)
    then have re: "r = Some e" "w1 = w0'" using assms wc by (auto simp: closeNoLock_def)
    have "steps_ok (take 6 (commit_ops db)) es0 (Some e)"
      unfolding split_ops by (rule steps_ok_append_fail) (use es0(2) Some in simp)
    then show ?thesis using es0(1) re by blast
  next
    case None
    have "\<exists>es1. trace w1 = trace w0' @ es1 \<and> steps_ok ?rest es1 r"
      using assms wc None f(2,3)
      by (auto simp: closeNoLock_def split: prod.splits option.splits
          dest!: file_Sync_trace file_Close_trace)
    then obtain es1 where es1: "trace w1 = trace w0' @ es1" "steps_ok ?rest es1 r" by blast
    have "steps_ok (take 6 (commit_ops db)) (es0 @ es1) r"
      unfolding split_ops by (rule steps_ok_append_ok) (use es0(2) es1(2) None in simp_all)
    then show ?thesis using es0(1) es1(1) by auto
  qed
qed

text \<open>
  C2. The calls \<^verbatim>\<open>Commit\<close> adds to the trace are those of \<open>commit_ops\<close> in their order: the
  forced flush, the two syncs, the two closes, the rename, the sync of the directory, the two
  files opened again read-only. Every call but the last succeeded; \<^verbatim>\<open>Commit\<close> returns nil
  exactly when all ten were made and succeeded, and otherwise the error of the last call
  made, the first to fail: no later call was made.
\<close>

theorem Commit_steps_in_order:
  assumes "Commit db w = (r, db1, w1)"
  shows "\<exists>es. trace w1 = trace w @ es \<and> steps_ok (commit_ops db) es r \<and>
           map fst es = take (length es) (commit_ops db) \<and>
           (\<forall>x \<in> set (butlast es). snd x = None) \<and>
           (r = None \<longrightarrow> map fst es = commit_ops db \<and> (\<forall>x \<in> set es. snd x = None)) \<and>
           (\<forall>e. r = Some e \<longrightarrow> es \<noteq> [] \<and> snd (last es) = Some e)"
proof -
  obtain r0 db0' w0' where cl: "closeNoLock db w = (r0, db0', w0')"
    by (cases "closeNoLock db w") auto
  note f = closeNoLock_steps [OF cl]
  from f(1) obtain es0 where es0: "trace w0' = trace w @ es0"
    "steps_ok (take 6 (commit_ops db)) es0 r0" by blast
  let ?rest = "[OpRename (path db, temporaryName) (path db, syncedName), OpSyncDir (path db),
      OpOpen (path db, syncedName) False, OpOpen (path db, indexName) False]"
  have split_ops: "commit_ops db = take 6 (commit_ops db) @ ?rest"
    by (simp add: commit_ops_def)
  have main: "\<exists>es. trace w1 = trace w @ es \<and> steps_ok (commit_ops db) es r"
  proof (cases r0)
    case (Some e)
    then have re: "r = Some e" "w1 = w0'" using assms cl by (auto simp: Commit_def)
    have "steps_ok (take 6 (commit_ops db) @ ?rest) es0 (Some e)"
      by (rule steps_ok_append_fail) (use es0(2) Some in simp)
    then have "steps_ok (commit_ops db) es0 (Some e)" using split_ops by simp
    then show ?thesis using es0(1) re by blast
  next
    case None
    have "\<exists>es1. trace w1 = trace w0' @ es1 \<and> steps_ok ?rest es1 r"
      using assms cl None f(2)
      by (auto simp: Commit_def Let_def split: prod.splits option.splits sum.splits
          dest!: rename_trace syncDir_trace os_OpenFile_trace)
    then obtain es1 where es1: "trace w1 = trace w0' @ es1" "steps_ok ?rest es1 r" by blast
    have "steps_ok (take 6 (commit_ops db) @ ?rest) (es0 @ es1) r"
      by (rule steps_ok_append_ok) (use es0(2) es1(2) None in simp_all)
    then have "steps_ok (commit_ops db) (es0 @ es1) r" using split_ops by simp
    then show ?thesis using es0(1) es1(1) by auto
  qed
  then obtain es where es: "trace w1 = trace w @ es" "steps_ok (commit_ops db) es r" by blast
  have "length (commit_ops db) = 10" by (simp add: commit_ops_def)
  then show ?thesis using es steps_ok_prefix [OF es(2)] by auto
qed

theorem Commit_steps_in_order_witness:
  "Commit db0 world1 = (None, db0c, world1c) \<and>
   (\<exists>es. trace world1c = trace world1 @ es \<and> steps_ok (commit_ops db0) es None \<and>
      map fst es = commit_ops db0 \<and> length es = 10) \<and>
   (\<exists>db1 w1.
      Commit db0 (world1\<lparr>plan := [None, None, Some (Errno 5)]\<rparr>) = (Some (Errno 5), db1, w1) \<and>
      trace w1 = trace world1 @
        [(OpWrite (Some (''db'', ''tmp.db'')) 0, None),
         (OpWrite (Some (''db'', ''flat.index'')) 8, None),
         (OpSync (Some (''db'', ''tmp.db'')), Some (Errno 5))] \<and>
      steps_ok (commit_ops db0)
        [(OpWrite (Some (''db'', ''tmp.db'')) 0, None),
         (OpWrite (Some (''db'', ''flat.index'')) 8, None),
         (OpSync (Some (''db'', ''tmp.db'')), Some (Errno 5))] (Some (Errno 5)))"
proof -
  have a: "\<exists>es. trace world1c = trace world1 @ es \<and> steps_ok (commit_ops db0) es None \<and>
      map fst es = commit_ops db0 \<and> length es = 10"
  proof -
    from Commit_steps_in_order [OF Commit_db0]
    obtain es where es: "trace world1c = trace world1 @ es" "steps_ok (commit_ops db0) es None"
      "map fst es = commit_ops db0" by auto
    have "length (map fst es) = 10" unfolding es(3) by (simp add: commit_ops_def)
    then have "length es = 10" by simp
    then show ?thesis using es by blast
  qed
  obtain db1 w1 where b:
    "Commit db0 (world1\<lparr>plan := [None, None, Some (Errno 5)]\<rparr>) = (Some (Errno 5), db1, w1)"
    "trace w1 = trace world1 @
        [(OpWrite (Some (''db'', ''tmp.db'')) 0, None),
         (OpWrite (Some (''db'', ''flat.index'')) 8, None),
         (OpSync (Some (''db'', ''tmp.db'')), Some (Errno 5))]"
    by (simp add: engine_defs os_defs const_defs slice_defs db0_def world1_def PutUint64_def)
  have c: "steps_ok (commit_ops db0)
        [(OpWrite (Some (''db'', ''tmp.db'')) 0, None),
         (OpWrite (Some (''db'', ''flat.index'')) 8, None),
         (OpSync (Some (''db'', ''tmp.db'')), Some (Errno 5))] (Some (Errno 5))"
    using Commit_steps_in_order [OF b(1)] b(2) by (simp add: world1_def)
  show ?thesis using a b c Commit_db0 by blast
qed

section \<open>The varint codec\<close>

lemma uvarint_bytes_small: "x < 0x80 \<Longrightarrow> uvarint_bytes x = [ucast x]"
  by (subst uvarint_bytes.simps) (simp add: not_le [symmetric])

lemma uvarint_bytes_big:
  "0x80 \<le> x \<Longrightarrow> uvarint_bytes x = (ucast x OR 0x80) # uvarint_bytes (drop_bit 7 x)"
  by (subst uvarint_bytes.simps) simp

lemma uvarint_bytes_nonempty [simp]: "uvarint_bytes x \<noteq> []"
  by (subst uvarint_bytes.simps) simp

lemma uvarint_bytes_length_pos [simp]: "0 < length (uvarint_bytes x)"
  by simp

lemma uvarint_bytes_length_le:
  "0 < k \<Longrightarrow> unat x < 2 ^ (7 * k) \<Longrightarrow> length (uvarint_bytes x) \<le> k"
proof (induction k arbitrary: x)
  case 0
  then show ?case by simp
next
  case (Suc k)
  show ?case
  proof (cases "0x80 \<le> x")
    case False
    then show ?thesis by (simp add: uvarint_bytes_small not_le)
  next
    case True
    then have big: "128 \<le> unat x" by (simp add: word_le_nat_alt)
    have d: "unat (drop_bit 7 x) = unat x div 128"
      by (simp add: drop_bit_eq_div unat_div)
    have "k \<noteq> 0"
    proof
      assume "k = 0"
      then have "unat x < 128" using Suc.prems(2) by simp
      then show False using big by simp
    qed
    moreover have "unat x div 128 < 2 ^ (7 * k)"
    proof -
      have "unat x < 128 * 2 ^ (7 * k)" using Suc.prems(2) by (simp add: power_add)
      then show ?thesis by (simp add: less_mult_imp_div_less mult.commute)
    qed
    ultimately have "length (uvarint_bytes (drop_bit 7 x)) \<le> k"
      using Suc.IH [of "drop_bit 7 x"] d by simp
    then show ?thesis using True by (simp add: uvarint_bytes_big)
  qed
qed

lemma uvarint_bytes_length_le_10: "length (uvarint_bytes x) \<le> 10"
proof -
  have "unat x < 2 ^ 64" using unsigned_less [of x] by simp
  then have "unat x < 2 ^ (7 * 10)" by (rule less_le_trans) simp
  then show ?thesis by (intro uvarint_bytes_length_le) simp_all
qed

lemma ucast_low7: "x < 0x80 \<Longrightarrow> (ucast (ucast x :: byte) :: 64 word) = x"
proof -
  assume "x < 0x80"
  then have "x < 2 ^ 7" by simp
  then have "x AND mask 7 = x" by (rule less_mask_eq)
  then have b: "\<And>n. bit x n \<Longrightarrow> n < 7" by (metis bit_and_iff bit_mask_iff)
  show ?thesis
    by (rule bit_word_eqI) (auto simp: bit_simps dest: b)
qed

lemma cont_byte_not_small: "\<not> ((ucast (x :: 64 word) OR 0x80 :: byte) < 0x80)"
proof -
  have "(0x80 :: byte) \<le> 0x80 OR ucast x" by (rule le_word_or2)
  then show ?thesis by (simp add: or.commute not_less)
qed

lemma cont_byte_low7: "(ucast ((ucast (x :: 64 word) OR 0x80 :: byte) AND 0x7f) :: 64 word) = x AND 0x7f"
proof -
  have m: "(0x7f :: byte) = mask 7" "(0x7f :: 64 word) = mask 7"
    by (simp_all add: mask_eq_exp_minus_1)
  have z: "(0x80 :: byte) AND mask 7 = 0" by (simp add: mask_eq_exp_minus_1)
  have "(ucast x OR 0x80 :: byte) AND mask 7 = ucast x AND mask 7"
    by (simp add: bit.conj_disj_distrib2 z)
  moreover have "(ucast (ucast x AND mask 7 :: byte) :: 64 word) = x AND mask 7"
    by (rule bit_word_eqI) (auto simp: bit_simps)
  ultimately show ?thesis unfolding m by simp
qed

lemma push_bit_split7:
  "push_bit s ((x :: 64 word) AND 0x7f) OR push_bit (s + 7) (drop_bit 7 x) = push_bit s x"
proof -
  have m: "(0x7f :: 64 word) = mask 7" by (simp add: mask_eq_exp_minus_1)
  have "bit (x AND mask 7 OR push_bit 7 (drop_bit 7 x)) n = bit x n" for n
    by (cases "n < 7") (auto simp: bit_simps dest: bit_imp_le_length)
  then have "x AND mask 7 OR push_bit 7 (drop_bit 7 x) = x"
    by (simp add: bit_eq_iff)
  then have "push_bit s (x AND mask 7 OR push_bit 7 (drop_bit 7 x)) = push_bit s x" by simp
  then show ?thesis
    unfolding m by (simp add: push_bit_or push_bit_push_bit add.commute)
qed

lemma unat_ucast_byte_small: "y < 0x80 \<Longrightarrow> unat (ucast (y :: 64 word) :: byte) = unat y"
proof -
  assume "y < 0x80"
  then have "unat y < 128" by (simp add: word_less_nat_alt)
  then have "take_bit 8 (unat y) = unat y" by (simp add: take_bit_nat_eq_self)
  then show ?thesis by (simp add: unsigned_ucast_eq)
qed

lemma Uvarint_loop_uvarint_bytes:
  "s = 7 * i \<Longrightarrow> i \<le> 9 \<Longrightarrow> unat y < 2 ^ (64 - 7 * i) \<Longrightarrow>
   Uvarint_loop (uvarint_bytes y @ rest) i s x =
     (x OR push_bit s y, int i + int (length (uvarint_bytes y)))"
proof (induction y arbitrary: i s x rule: uvarint_bytes.induct)
  case (1 y)
  show ?case
  proof (cases "0x80 \<le> y")
    case False
    then have small: "y < 0x80" by simp
    then have u: "unat y < 128" by (simp add: word_less_nat_alt)
    have b: "(ucast y :: byte) < 0x80"
      using u by (simp add: word_less_nat_alt unat_ucast_byte_small [OF small])
    have nine: "\<not> (i = 9 \<and> 1 < (ucast y :: byte))"
    proof
      assume a: "i = 9 \<and> 1 < (ucast y :: byte)"
      then have "unat y < 2" using "1.prems"(3) by simp
      moreover have "1 < unat y"
        using a by (simp add: word_less_nat_alt unat_ucast_byte_small [OF small])
      ultimately show False by simp
    qed
    show ?thesis
      using "1.prems"(2) b nine by (simp add: uvarint_bytes_small [OF small] ucast_low7 [OF small])
  next
    case True
    then have big: "128 \<le> unat y" by (simp add: word_le_nat_alt)
    have i8: "i \<le> 8"
    proof (rule ccontr)
      assume "\<not> i \<le> 8"
      then have "i = 9" using "1.prems"(2) by simp
      then have "unat y < 2" using "1.prems"(3) by simp
      then show False using big by simp
    qed
    have d: "unat (drop_bit 7 y) = unat y div 128"
      by (simp add: drop_bit_eq_div unat_div)
    define m where "m = 64 - 7 * (i + 1)"
    have e: "64 - 7 * i = 7 + m" using i8 by (simp add: m_def)
    have "unat y < 2 ^ (7 + m)" using "1.prems"(3) by (simp only: e)
    then have "unat y < 128 * 2 ^ m" by (simp add: power_add)
    then have "unat y div 128 < 2 ^ m" by (simp add: less_mult_imp_div_less mult.commute)
    then have lt: "unat (drop_bit 7 y) < 2 ^ (64 - 7 * (i + 1))"
      by (simp only: d m_def)
    have ih: "Uvarint_loop (uvarint_bytes (drop_bit 7 y) @ rest) (i + 1) (s + 7)
        (x OR push_bit s (y AND 0x7f)) =
        ((x OR push_bit s (y AND 0x7f)) OR push_bit (s + 7) (drop_bit 7 y),
         int (i + 1) + int (length (uvarint_bytes (drop_bit 7 y))))"
      using "1.IH" [OF True, of "s + 7" "i + 1"] "1.prems"(1) i8 lt by simp
    have "(x OR push_bit s (y AND 0x7f)) OR push_bit (s + 7) (drop_bit 7 y) = x OR push_bit s y"
      using push_bit_split7 [of s y] by (simp add: or.assoc)
    then show ?thesis
      using ih i8 by (simp add: uvarint_bytes_big [OF True] cont_byte_not_small cont_byte_low7)
  qed
qed

lemma Uvarint_uvarint_bytes:
  "Uvarint (uvarint_bytes y @ rest) = (y, int (length (uvarint_bytes y)))"
proof -
  have "unat y < 2 ^ 64" using unsigned_less [of y] by simp
  then show ?thesis
    unfolding Uvarint_def using Uvarint_loop_uvarint_bytes [of 0 0 y rest 0] by simp
qed

lemma Uvarint_Nil: "Uvarint [] = (0, 0)"
  by (simp add: Uvarint_def)

lemma length_PutUint64 [simp]: "length (PutUint64 v) = 8"
  by (simp add: PutUint64_def)

lemma byte_at:
  "bit (push_bit k (ucast (ucast (drop_bit k (v :: 64 word)) :: byte) :: 64 word)) n \<longleftrightarrow>
   k \<le> n \<and> n < k + 8 \<and> bit v n"
  by (auto simp: bit_simps dest: bit_imp_le_length)

lemma Uint64_PutUint64: "Uint64 (PutUint64 v) = v"
proof -
  have "bit (Uint64 (PutUint64 v)) n = bit v n" for n
  proof -
    have "n < 64 \<or> \<not> bit v n" using bit_imp_le_length [of v n] by auto
    then show ?thesis
      using byte_at [of 0 v n]
      by (auto simp add: Uint64_def PutUint64_def bit_or_iff byte_at)
  qed
  then show ?thesis by (simp add: bit_eq_iff)
qed

section \<open>Put appends one record to the buffer\<close>

lemma write_at_append: "write_at (A @ T) (length A) bs = A @ bs @ drop (length bs) T"
  by (simp add: write_at_def)

lemma PutUvarint_at:
  "elems s = A @ T \<Longrightarrow> length (uvarint_bytes x) \<le> length T \<Longrightarrow>
   PutUvarint s (length A) x =
     Some (s\<lparr>elems := A @ uvarint_bytes x @ drop (length (uvarint_bytes x)) T\<rparr>,
           length (uvarint_bytes x))"
  by (simp add: PutUvarint_def Let_def len_def write_at_append)

lemma copy_to_at:
  "elems s = A @ T \<Longrightarrow>
   copy_to s (length A) src =
     Some (s\<lparr>elems := A @ take (length T) src @ drop (length src) T\<rparr>,
           min (length T) (length src))"
proof -
  assume e: "elems s = A @ T"
  have "take (min (length T) (length src)) src @ drop (min (length T) (length src)) T =
      take (length T) src @ drop (length src) T"
    by (cases "length T \<le> length src") (simp_all add: min_def)
  then show ?thesis
    using e by (simp add: copy_to_def Let_def len_def write_at_append [of A T, simplified])
qed

lemma slice_to_prefix:
  "elems s = A @ R \<Longrightarrow> h = length A \<Longrightarrow>
   slice_to s (int h) = Some \<lparr>elems = A, spare = R @ spare s\<rparr>"
  by (simp add: slice_to_def cap_def)

lemma grow_buff:
  "0 \<le> n \<Longrightarrow>
   \<exists>b. grow n db = db\<lparr>buff := b\<rparr> \<and> elems b = elems (buff db) \<and> nat n \<le> length (spare b)"
proof (cases "int (cap (buff db)) - int (len (buff db)) < n")
  case True
  assume "0 \<le> n"
  show ?thesis
    using True
    by (fastforce simp: grow_def Let_def make_bytes_def write_at_def len_def)
next
  case False
  assume "0 \<le> n"
  have "grow n db = db\<lparr>buff := buff db\<rparr>" using False by (simp add: grow_def Let_def)
  moreover have "nat n \<le> length (spare (buff db))"
    using False by (simp add: cap_def len_def)
  ultimately show ?thesis by blast
qed

lemma uvarint_small_value: "n < 128 \<Longrightarrow> length (uvarint_bytes (of_nat n)) = 1"
proof -
  assume "n < 128"
  then have "unat (of_nat n :: 64 word) < 128" by (simp add: unat_of_nat)
  then have "(of_nat n :: 64 word) < 0x80" by (simp add: word_less_nat_alt)
  then show ?thesis by (simp add: uvarint_bytes_small)
qed

lemma prefixes_fit:
  assumes "0 < lv"
  shows "length (uvarint_bytes (of_nat lk)) + length (uvarint_bytes (of_nat lv)) \<le> 10 + lv"
proof (cases "lv < 128")
  case True
  then show ?thesis
    using assms uvarint_small_value [of lv] uvarint_bytes_length_le_10 [of "of_nat lk"] by simp
next
  case False
  then show ?thesis
    using uvarint_bytes_length_le_10 [of "of_nat lk"] uvarint_bytes_length_le_10 [of "of_nat lv"]
    by simp
qed

lemma Put_appends:
  assumes "k \<noteq> []" and "v \<noteq> []" and "\<not> read db"
  shows "\<exists>b. Put k v db w =
           Some (writeChunk False
                  (db\<lparr>buff := b, items := items db + 1,
                      offset := offset db + of_nat (length (put_bytes k v))\<rparr>) w) \<and>
         elems b = elems (buff db) @ put_bytes k v"
proof -
  define n where "n = 2 * MaxVarintLen32 + length k + length v"
  define p1 where "p1 = uvarint_bytes (of_nat (length k))"
  define p2 where "p2 = uvarint_bytes (of_nat (length v))"
  have n10: "n = 10 + length k + length v" by (simp add: n_def MaxVarintLen32_def)
  have l1: "length p1 \<le> 10" unfolding p1_def by (rule uvarint_bytes_length_le_10)
  have l12: "length p1 + length p2 \<le> 10 + length v"
    unfolding p1_def p2_def using assms(2) by (intro prefixes_fit) simp
  obtain b where g: "grow (int n) db = db\<lparr>buff := b\<rparr>" "elems b = elems (buff db)"
    "n \<le> length (spare b)"
    using grow_buff [of "int n" db] by auto
  define E where "E = elems b"
  define T0 where "T0 = take n (spare b)"
  have lT0: "length T0 = n" using g(3) by (simp add: T0_def)
  define b0 where "b0 = \<lparr>elems = E @ T0, spare = drop n (spare b)\<rparr>"
  have s0: "slice_to b (int (length E + n)) = Some b0"
    using g(3) by (simp add: slice_to_def cap_def b0_def E_def T0_def nat_int_add)
  define T1 where "T1 = drop (length p1) T0"
  define b1 where "b1 = b0\<lparr>elems := E @ p1 @ T1\<rparr>"
  have c1: "length (uvarint_bytes (of_nat (length k))) \<le> length T0"
    using l1 lT0 n10 by (simp add: p1_def)
  have e0: "elems b0 = E @ T0" by (simp add: b0_def)
  have s1: "PutUvarint b0 (length E) (of_nat (length k)) = Some (b1, length p1)"
    using PutUvarint_at [OF e0 c1] by (simp add: b1_def T1_def p1_def)
  have lT1: "length T1 = n - length p1" by (simp add: T1_def lT0)
  define T2 where "T2 = drop (length k) T1"
  define b2 where "b2 = b1\<lparr>elems := E @ p1 @ k @ T2\<rparr>"
  have e1: "elems b1 = (E @ p1) @ T1" by (simp add: b1_def)
  have c2: "length k \<le> length T1" using lT1 n10 l1 by simp
  have s2: "copy_to b1 (length E + length p1) k = Some (b2, length k)"
    using copy_to_at [OF e1, of k] c2 by (simp add: b2_def T2_def min_def)
  have lT2: "length T2 = n - length p1 - length k" by (simp add: T2_def lT1)
  define T3 where "T3 = drop (length p2) T2"
  define b3 where "b3 = b2\<lparr>elems := E @ p1 @ k @ p2 @ T3\<rparr>"
  have e2: "elems b2 = (E @ p1 @ k) @ T2" by (simp add: b2_def)
  have c3: "length (uvarint_bytes (of_nat (length v))) \<le> length T2"
    using lT2 n10 l1 l12 by (simp add: p2_def)
  have s3: "PutUvarint b2 (length E + length p1 + length k) (of_nat (length v)) = Some (b3, length p2)"
    using PutUvarint_at [OF e2 c3] by (simp add: b3_def T3_def p2_def add.assoc)
  have lT3: "length T3 = n - length p1 - length k - length p2" by (simp add: T3_def lT2)
  define m where "m = 2 * MaxVarintLen32 + length v - length p1 - length p2"
  have lT3m: "length T3 = m" using lT3 n10 l1 l12 by (simp add: m_def MaxVarintLen32_def)
  define n4 where "n4 = min m (length v)"
  define b4 where "b4 = b3\<lparr>elems := E @ p1 @ k @ p2 @ take m v @ drop (length v) T3\<rparr>"
  have e3: "elems b3 = (E @ p1 @ k @ p2) @ T3" by (simp add: b3_def)
  have s4: "copy_to b3 (length E + length p1 + length k + length p2) v = Some (b4, n4)"
    using copy_to_at [OF e3, of v] lT3m by (simp add: b4_def n4_def add.assoc)
  define b5 where "b5 = \<lparr>elems = E @ p1 @ k @ p2 @ take m v,
    spare = drop (length v) T3 @ spare b4\<rparr>"
  have ltake: "length (take m v) = n4" by (simp add: n4_def min.commute)
  have e4: "elems b4 = (E @ p1 @ k @ p2 @ take m v) @ drop (length v) T3" by (simp add: b4_def)
  have h4: "length E + length p1 + length k + length p2 + n4 = length (E @ p1 @ k @ p2 @ take m v)"
    using ltake by (simp del: length_take)
  have s5: "slice_to b4 (int (length E + length p1 + length k + length p2 + n4)) = Some b5"
    using slice_to_prefix [OF e4 h4] by (simp add: b5_def)
  have pb: "put_bytes k v = p1 @ k @ p2 @ take m v"
    by (simp add: put_bytes_def Let_def p1_def p2_def m_def)
  have lpb: "length (put_bytes k v) = length p1 + length k + length p2 + n4"
    by (simp add: pb ltake del: length_take)
  have off: "of_nat (length E + length p1 + length k + length p2 + n4) - (of_nat (length E) :: 64 word) =
      of_nat (length (put_bytes k v))"
    by (simp add: lpb)
  have "Put k v db w =
      Some (writeChunk False
             (db\<lparr>buff := b5, items := items db + 1,
                 offset := offset db + of_nat (length (put_bytes k v))\<rparr>) w)"
    using assms
    unfolding Put_def Let_def n_def [symmetric] g(1)
    by (simp add: len_def E_def [symmetric] s0 s1 s2 s3 s4 s5 off del: of_nat_add)
  moreover have "elems b5 = elems (buff db) @ put_bytes k v"
    by (simp add: b5_def pb E_def g(2))
  ultimately show ?thesis by blast
qed

section \<open>The write phase\<close>

lemma names_distinct:
  "temporaryName \<noteq> indexName" "temporaryName \<noteq> syncedName" "syncedName \<noteq> indexName"
  by (simp_all add: temporaryName_def indexName_def syncedName_def)

lemma writeChunk_skip:
  "len (buff db) < chunkSize \<Longrightarrow> writeChunk False db w = (None, db, w)"
  by (simp add: writeChunk_def)

lemma writeChunk_flush:
  assumes "wr_state p db w d ix" and "force \<or> chunkSize \<le> len (buff db)"
  shows "\<exists>db1 w1. writeChunk force db w = (None, db1, w1) \<and>
      wr_state p db1 w1 (d @ elems (buff db)) (ix @ PutUint64 (offset db)) \<and>
      elems (buff db1) = [] \<and> offset db1 = offset db \<and> iterating db1 = iterating db \<and>
      trace w1 = trace w @ [(OpWrite (Some (p, temporaryName)) (len (buff db)), None),
                            (OpWrite (Some (p, indexName)) 8, None)]"
  using assms names_distinct
  by (auto simp: writeChunk_def wr_state_def file_Write_def pop_fault_def log_ev_def Let_def
      len_def pwrite_def buff_reset_def)

lemma cumsums_append:
  "cumsums a (ns @ [n]) = cumsums a ns @ [a + sum_list ns + n]"
  by (induction ns arbitrary: a) (simp_all add: add.assoc)

lemma length_cumsums [simp]: "length (cumsums a ns) = length ns"
  by (induction ns arbitrary: a) simp_all

lemma length_concat_buf_of:
  "length (concat (map buf_of G)) = sum_list (map (\<lambda>g. length (buf_of g)) G)"
  by (induction G) simp_all

lemma buf_of_append: "buf_of (xs @ ys) = buf_of xs @ buf_of ys"
  by (simp add: buf_of_def)

lemma buf_of_single: "buf_of [(k, v)] = put_bytes k v"
  by (simp add: buf_of_def)

lemma buf_of_Nil [simp]: "buf_of [] = []"
  by (simp add: buf_of_def)

lemma index_bytes_append: "index_bytes (xs @ ys) = index_bytes xs @ index_bytes ys"
  by (simp add: index_bytes_def)

lemma data_writes_append: "data_writes f (xs @ ys) = data_writes f xs @ data_writes f ys"
  by (induction f xs rule: data_writes.induct) simp_all

lemma chunking_nonempty [simp]: "chunking pend es \<noteq> []"
  by (induction es arbitrary: pend) simp_all

lemma Put_write_inv:
  assumes "write_inv p t0 db w G pend" and "k \<noteq> []" and "v \<noteq> []"
  shows "\<exists>db1 w1. Put k v db w = Some (None, db1, w1) \<and>
      iterating db1 = iterating db \<and>
      (if chunkSize \<le> length (buf_of (pend @ [(k, v)]))
       then write_inv p t0 db1 w1 (G @ [pend @ [(k, v)]]) []
       else write_inv p t0 db1 w1 G (pend @ [(k, v)]))"
proof -
  let ?d = "concat (map buf_of G)"
  let ?ix = "index_bytes (map of_nat (cumsums 0 (map (\<lambda>g. length (buf_of g)) G)))"
  have wr: "wr_state p db w ?d ?ix" using assms(1) by (simp add: write_inv_def)
  then have nr: "\<not> read db" by (simp add: wr_state_def)
  obtain b where put: "Put k v db w =
      Some (writeChunk False
             (db\<lparr>buff := b, items := items db + 1,
                 offset := offset db + of_nat (length (put_bytes k v))\<rparr>) w)"
    and eb: "elems b = elems (buff db) @ put_bytes k v"
    using Put_appends [OF assms(2,3) nr] by blast
  let ?db = "db\<lparr>buff := b, items := items db + 1,
      offset := offset db + of_nat (length (put_bytes k v))\<rparr>"
  have eb': "elems b = buf_of (pend @ [(k, v)])"
    using eb assms(1) by (simp add: write_inv_def buf_of_append buf_of_single)
  have off: "offset ?db = of_nat (length ?d + length (buf_of (pend @ [(k, v)])))"
    using assms(1) by (simp add: write_inv_def buf_of_append buf_of_single)
  have wr': "wr_state p ?db w ?d ?ix" using wr by (simp add: wr_state_def)
  show ?thesis
  proof (cases "chunkSize \<le> length (buf_of (pend @ [(k, v)]))")
    case False
    then have "writeChunk False ?db w = (None, ?db, w)"
      using eb' by (intro writeChunk_skip) (simp add: len_def)
    moreover have "write_inv p t0 ?db w G (pend @ [(k, v)])"
      using assms(1) wr' eb' off False by (simp add: write_inv_def)
    ultimately show ?thesis using put False by simp
  next
    case True
    then have "False \<or> chunkSize \<le> len (buff ?db)" using eb' by (simp add: len_def)
    from writeChunk_flush [OF wr' this]
    obtain db1 w1 where f: "writeChunk False ?db w = (None, db1, w1)"
      "wr_state p db1 w1 (?d @ elems (buff ?db)) (?ix @ PutUint64 (offset ?db))"
      "elems (buff db1) = []" "offset db1 = offset ?db" "iterating db1 = iterating ?db"
      "trace w1 = trace w @ [(OpWrite (Some (p, temporaryName)) (len (buff ?db)), None),
                            (OpWrite (Some (p, indexName)) 8, None)]"
      by blast
    let ?G = "G @ [pend @ [(k, v)]]"
    have d1: "concat (map buf_of ?G) = ?d @ elems (buff ?db)" using eb' by simp
    have i1: "index_bytes (map of_nat (cumsums 0 (map (\<lambda>g. length (buf_of g)) ?G))) =
        ?ix @ PutUint64 (offset ?db)"
      using off
      by (simp add: cumsums_append index_bytes_append index_bytes_def length_concat_buf_of)
    have t: "t0 \<le> length (trace w)" using assms(1) by (simp add: write_inv_def)
    have dw: "data_writes (p, temporaryName) (drop t0 (trace w1)) =
        map (\<lambda>g. length (buf_of g)) ?G"
      using assms(1) t f(6) eb' names_distinct
      by (simp add: write_inv_def data_writes_append len_def)
    have "write_inv p t0 db1 w1 ?G []"
      unfolding write_inv_def d1 i1
      using f(2,3,4) off d1 dw t f(6) by (simp add: chunkSize_def)
    then show ?thesis using put f(1,5) True by simp
  qed
qed

lemma put_all_write_inv:
  assumes "write_inv p t0 db w G pend" and "\<forall>e \<in> set es. fst e \<noteq> [] \<and> snd e \<noteq> []"
  shows "\<exists>db1 w1. put_all es db w = Some (None, db1, w1) \<and>
      iterating db1 = iterating db \<and>
      write_inv p t0 db1 w1 (G @ butlast (chunking pend es)) (last (chunking pend es))"
  using assms
proof (induction es arbitrary: db w G pend)
  case Nil
  then show ?case by simp
next
  case (Cons e es)
  obtain k v where e: "e = (k, v)" by (cases e)
  have kv: "k \<noteq> []" "v \<noteq> []" using Cons.prems(2) e by auto
  from Put_write_inv [OF Cons.prems(1) kv]
  obtain db1 w1 where p: "Put k v db w = Some (None, db1, w1)"
    and it: "iterating db1 = iterating db"
    and inv: "if chunkSize \<le> length (buf_of (pend @ [(k, v)]))
       then write_inv p t0 db1 w1 (G @ [pend @ [(k, v)]]) []
       else write_inv p t0 db1 w1 G (pend @ [(k, v)])"
    by blast
  have rest: "\<forall>e \<in> set es. fst e \<noteq> [] \<and> snd e \<noteq> []" using Cons.prems(2) by simp
  show ?case
  proof (cases "chunkSize \<le> length (buf_of (pend @ [(k, v)]))")
    case True
    then have "write_inv p t0 db1 w1 (G @ [pend @ [(k, v)]]) []" using inv by simp
    from Cons.IH [OF this rest]
    show ?thesis using p it True e by (simp add: butlast_append)
  next
    case False
    then have "write_inv p t0 db1 w1 G (pend @ [(k, v)])" using inv by simp
    from Cons.IH [OF this rest]
    show ?thesis using p it False e by simp
  qed
qed

lemma NewFlatDatabase_write:
  assumes "plan w = []"
  shows "\<exists>db w0. NewFlatDatabase p False w = (Inr db, w0) \<and>
      write_inv p (length (trace w0)) db w0 [] [] \<and> \<not> iterating db \<and>
      buff db = nil_slice"
  using assms names_distinct
  by (simp add: NewFlatDatabase_def os_MkdirAll_def os_OpenFile_def pop_fault_def log_ev_def
      write_inv_def wr_state_def index_bytes_def nil_slice_def chunkSize_def)

lemma Commit_write_inv:
  assumes "write_inv p t0 db w G pend"
  shows "\<exists>db1 w1. Commit db w = (None, db1, w1) \<and>
      rd_state p db1 w1 (concat (map buf_of (G @ [pend])))
        (index_bytes (map of_nat (cumsums 0 (map (\<lambda>g. length (buf_of g)) (G @ [pend]))))) 0 0 \<and>
      offset db1 = 0 \<and> elems (buff db1) = [] \<and> iterating db1 = iterating db \<and>
      data_writes (p, temporaryName) (drop t0 (trace w1)) =
        map (\<lambda>g. length (buf_of g)) (G @ [pend])"
proof -
  let ?d = "concat (map buf_of G)"
  let ?ix = "index_bytes (map of_nat (cumsums 0 (map (\<lambda>g. length (buf_of g)) G)))"
  have wr: "wr_state p db w ?d ?ix" using assms by (simp add: write_inv_def)
  from writeChunk_flush [OF wr, of True]
  obtain db1 w1 where f: "writeChunk True db w = (None, db1, w1)"
    "wr_state p db1 w1 (?d @ elems (buff db)) (?ix @ PutUint64 (offset db))"
    "elems (buff db1) = []" "offset db1 = offset db" "iterating db1 = iterating db"
    "trace w1 = trace w @ [(OpWrite (Some (p, temporaryName)) (len (buff db)), None),
                          (OpWrite (Some (p, indexName)) 8, None)]"
    by auto
  let ?G = "G @ [pend]"
  have eb: "elems (buff db) = buf_of pend" using assms by (simp add: write_inv_def)
  have off: "offset db = of_nat (length ?d + length (buf_of pend))"
    using assms by (simp add: write_inv_def)
  have d1: "concat (map buf_of ?G) = ?d @ elems (buff db)" using eb by simp
  have i1: "index_bytes (map of_nat (cumsums 0 (map (\<lambda>g. length (buf_of g)) ?G))) =
      ?ix @ PutUint64 (offset db)"
    using off
    by (simp add: cumsums_append index_bytes_append index_bytes_def length_concat_buf_of)
  have t: "t0 \<le> length (trace w)" using assms by (simp add: write_inv_def)
  have dw: "data_writes (p, temporaryName) (drop t0 (trace w)) = map (\<lambda>g. length (buf_of g)) G"
    using assms by (simp add: write_inv_def)
  show ?thesis
    unfolding d1 i1
    using f(1,2,3,5,6) t dw eb names_distinct
    by (simp add: Commit_def closeNoLock_def wr_state_def rd_state_def file_Sync_def
        file_Close_def rename_def syncDir_def os_OpenFile_def pop_fault_def log_ev_def
        file_invalid_def Let_def data_writes_append len_def)
qed

section \<open>The index entries\<close>

lemma concat_chunking: "concat (chunking pend es) = pend @ es"
  by (induction es arbitrary: pend) simp_all

lemma buf_of_concat: "buf_of (concat G) = concat (map buf_of G)"
  by (induction G) (simp_all add: buf_of_append)

lemma butlast_last_chunking: "butlast (chunking pend es) @ [last (chunking pend es)] = chunking pend es"
  by simp

lemma sorted_cumsums: "sorted (cumsums a ns) \<and> (\<forall>c \<in> set (cumsums a ns). a \<le> c \<and> c \<le> a + sum_list ns)"
proof (induction ns arbitrary: a)
  case Nil
  then show ?case by simp
next
  case (Cons n ns)
  have "sorted (cumsums (a + n) ns)"
    and b: "\<forall>c \<in> set (cumsums (a + n) ns). a + n \<le> c \<and> c \<le> a + n + sum_list ns"
    using Cons.IH [of "a + n"] by simp_all
  then show ?case by (fastforce simp: add.assoc)
qed

lemma unat_of_nat_64: "n < 2 ^ 64 \<Longrightarrow> unat (of_nat n :: 64 word) = n"
  by (simp add: unat_of_nat)

text \<open>
  C3. In a world where nothing fails, a new engine in write mode takes any pairs with
  non-empty keys and values, every \<^verbatim>\<open>Put\<close> succeeds and \<^verbatim>\<open>Commit\<close> succeeds. With \<open>fl\<close> the
  sizes of the flushes (the writes to the data file, in order, the last one the forced flush
  of \<^verbatim>\<open>Commit\<close>) and \<open>cs\<close> their running sums, the byte counts of the data stream at the end
  of each flush: the index file is the sequence of the \<open>cs\<close>, each as a \<^verbatim>\<open>uint64\<close> in 8
  bytes, big-endian; there are as many entries as flushes, one a chunk of the flush policy;
  the data file has the bytes of all the flushes; the counts never decrease, and while the
  data stream is below \<open>2 ^ 64\<close> bytes each entry read as an integer is the count itself.
\<close>

theorem index_entries_cumulative:
  assumes "plan w = []" and "\<forall>e \<in> set es. fst e \<noteq> [] \<and> snd e \<noteq> []"
  shows "\<exists>db w0 db1 w1 db2 w2 fl cs.
     NewFlatDatabase p False w = (Inr db, w0) \<and>
     put_all es db w0 = Some (None, db1, w1) \<and>
     Commit db1 w1 = (None, db2, w2) \<and>
     fl = data_writes (p, temporaryName) (drop (length (trace w0)) (trace w2)) \<and>
     cs = cumsums 0 fl \<and>
     files w2 (p, indexName) = Some (index_bytes (map of_nat cs)) \<and>
     length (index_bytes (map of_nat cs)) = 8 * length fl \<and>
     length fl = length (chunking [] es) \<and>
     files w2 (p, syncedName) = Some (buf_of es) \<and> length (buf_of es) = sum_list fl \<and>
     sorted cs \<and>
     (length (buf_of es) < 2 ^ 64 \<longrightarrow>
        map (\<lambda>x. unat (Uint64 (PutUint64 x))) (map of_nat cs) = cs)"
proof -
  from NewFlatDatabase_write [OF assms(1), of p]
  obtain db w0 where n: "NewFlatDatabase p False w = (Inr db, w0)"
    and i0: "write_inv p (length (trace w0)) db w0 [] []" by blast
  from put_all_write_inv [OF i0 assms(2)]
  obtain db1 w1 where pa: "put_all es db w0 = Some (None, db1, w1)"
    and i1: "write_inv p (length (trace w0)) db1 w1
        ([] @ butlast (chunking [] es)) (last (chunking [] es))" by blast
  from Commit_write_inv [OF i1]
  obtain db2 w2 where c: "Commit db1 w1 = (None, db2, w2)"
    and rd: "rd_state p db2 w2 (concat (map buf_of (chunking [] es)))
        (index_bytes (map of_nat (cumsums 0 (map (\<lambda>g. length (buf_of g)) (chunking [] es))))) 0 0"
    and dw: "data_writes (p, temporaryName) (drop (length (trace w0)) (trace w2)) =
        map (\<lambda>g. length (buf_of g)) (chunking [] es)"
    by (auto simp: butlast_last_chunking)
  define fl where "fl = data_writes (p, temporaryName) (drop (length (trace w0)) (trace w2))"
  define cs where "cs = cumsums 0 fl"
  have fl: "fl = map (\<lambda>g. length (buf_of g)) (chunking [] es)" using dw by (simp add: fl_def)
  have d: "concat (map buf_of (chunking [] es)) = buf_of es"
    using buf_of_concat [of "chunking [] es"] by (simp add: concat_chunking)
  have ix: "files w2 (p, indexName) = Some (index_bytes (map of_nat cs))"
    using rd by (simp add: rd_state_def cs_def fl)
  have li: "length (index_bytes (map of_nat cs)) = 8 * length fl"
    unfolding index_bytes_def cs_def
    by (simp add: length_concat comp_def sum_list_triv)
  have df: "files w2 (p, syncedName) = Some (buf_of es)" using rd d by (simp add: rd_state_def)
  have ld: "length (buf_of es) = sum_list fl"
    using d length_concat_buf_of [of "chunking [] es"] by (simp add: fl)
  have so: "sorted cs" unfolding cs_def using sorted_cumsums [of 0 fl] by simp
  have bound: "\<forall>c \<in> set cs. c \<le> sum_list fl"
    unfolding cs_def using sorted_cumsums [of 0 fl] by simp
  have un: "length (buf_of es) < 2 ^ 64 \<longrightarrow>
      map (\<lambda>x. unat (Uint64 (PutUint64 x))) (map of_nat cs) = cs"
  proof
    assume "length (buf_of es) < 2 ^ 64"
    then have "\<forall>c \<in> set cs. c < 2 ^ 64" using bound ld by auto
    then have "map (\<lambda>c. unat (of_nat c :: 64 word)) cs = cs"
      by (simp add: map_idI unat_of_nat_64)
    then show "map (\<lambda>x. unat (Uint64 (PutUint64 x))) (map of_nat cs) = cs"
      by (simp add: Uint64_PutUint64 comp_def)
  qed
  have lf: "length fl = length (chunking [] es)" by (simp add: fl)
  show ?thesis
    using n pa c ix li df ld so un lf fl_def cs_def by blast
qed

lemma uvarint_bytes_3: "uvarint_bytes 3 = [3]"
  by (simp add: uvarint_bytes_small)

lemma buf_of_example:
  "buf_of [([1, 2, 3], [0x1a, 0x1b, 0x1c]), ([4, 5, 6], [0x2a, 0x2b, 0x2c])] =
     [3, 1, 2, 3, 3, 0x1a, 0x1b, 0x1c, 3, 4, 5, 6, 3, 0x2a, 0x2b, 0x2c]"
  by (simp add: buf_of_def put_bytes_def uvarint_bytes_3 MaxVarintLen32_def)

theorem index_entries_cumulative_witness:
  "plan world0 = [] \<and>
   length (buf_of [([1, 2, 3], [0x1a, 0x1b, 0x1c]), ([4, 5, 6], [0x2a, 0x2b, 0x2c])]) < 2 ^ 64 \<and>
   (\<exists>db w0 db1 w1 db2 w2.
      NewFlatDatabase ''db'' False world0 = (Inr db, w0) \<and>
      put_all [([1, 2, 3], [0x1a, 0x1b, 0x1c]), ([4, 5, 6], [0x2a, 0x2b, 0x2c])] db w0 =
        Some (None, db1, w1) \<and>
      Commit db1 w1 = (None, db2, w2) \<and>
      data_writes (''db'', temporaryName) (drop (length (trace w0)) (trace w2)) = [16] \<and>
      files w2 (''db'', indexName) = Some [0, 0, 0, 0, 0, 0, 0, 16] \<and>
      files w2 (''db'', syncedName) =
        Some [3, 1, 2, 3, 3, 0x1a, 0x1b, 0x1c, 3, 4, 5, 6, 3, 0x2a, 0x2b, 0x2c])"
proof -
  let ?es = "[([1, 2, 3], [0x1a, 0x1b, 0x1c]), ([4, 5, 6], [0x2a, 0x2b, 0x2c])] :: (bytes \<times> bytes) list"
  have p: "plan world0 = []" by (simp add: world0_def)
  have ne: "\<forall>e \<in> set ?es. fst e \<noteq> [] \<and> snd e \<noteq> []" by simp
  have ch: "chunking [] ?es = [?es]"
    by (simp add: buf_of_example [simplified] buf_of_def put_bytes_def uvarint_bytes_3
        MaxVarintLen32_def chunkSize_def)
  from index_entries_cumulative [OF p ne, of "''db''"]
  obtain db w0 db1 w1 db2 w2 fl cs where r:
    "NewFlatDatabase ''db'' False world0 = (Inr db, w0)"
    "put_all ?es db w0 = Some (None, db1, w1)"
    "Commit db1 w1 = (None, db2, w2)"
    "fl = data_writes (''db'', temporaryName) (drop (length (trace w0)) (trace w2))"
    "cs = cumsums 0 fl"
    "files w2 (''db'', indexName) = Some (index_bytes (map of_nat cs))"
    "length fl = length (chunking [] ?es)"
    "files w2 (''db'', syncedName) = Some (buf_of ?es)"
    "length (buf_of ?es) = sum_list fl"
    by blast
  have "length fl = 1" using r(7) ch by simp
  then obtain n where fl: "fl = [n]" by (cases fl) auto
  then have "n = 16" using r(9) by (simp add: buf_of_example)
  then have cs: "cs = [16]" using r(5) fl by simp
  have "index_bytes (map of_nat cs) = [0, 0, 0, 0, 0, 0, 0, 16]"
    by (simp add: cs index_bytes_def PutUint64_def)
  then show ?thesis
    using p r(1,2,3,4,6,8) fl \<open>n = 16\<close> by (simp add: buf_of_example)
qed

section \<open>The read phase\<close>

lemma sint_of_nat_63: "n < 2 ^ 63 \<Longrightarrow> sint (of_nat n :: 64 word) = int n"
  by (simp add: signed_of_nat signed_take_bit_int_eq_self)

lemma put_bytes_enc_rec:
  assumes "length k < 2 ^ 35" and "length v < 2 ^ 35"
  shows "put_bytes k v = enc_rec (k, v)"
proof -
  have "unat (of_nat (length k) :: 64 word) < 2 ^ (7 * 5)"
    using assms(1) by (simp add: unat_of_nat)
  then have l1: "length (uvarint_bytes (of_nat (length k))) \<le> 5"
    by (intro uvarint_bytes_length_le) simp_all
  have "unat (of_nat (length v) :: 64 word) < 2 ^ (7 * 5)"
    using assms(2) by (simp add: unat_of_nat)
  then have l2: "length (uvarint_bytes (of_nat (length v))) \<le> 5"
    by (intro uvarint_bytes_length_le) simp_all
  show ?thesis
    using l1 l2 by (simp add: put_bytes_def enc_rec_def Let_def MaxVarintLen32_def)
qed

lemma decode_front_empty:
  "elems (buff db) = [] \<Longrightarrow> decode_front it db w = Some (False, it, db, w)"
  by (simp add: decode_front_def Uvarint_Nil)

lemma decode_front_rec:
  assumes "elems (buff db) = enc_rec (k, v) @ R"
    and "length k < 2 ^ 63" and "length v < 2 ^ 63"
  shows "decode_front it db w =
     Some (True, it\<lparr>key := k, val := v\<rparr>,
           db\<lparr>buff := \<lparr>elems = R, spare = spare (buff db)\<rparr>\<rparr>, w)"
proof -
  define p1 where "p1 = uvarint_bytes (of_nat (length k))"
  define p2 where "p2 = uvarint_bytes (of_nat (length v))"
  define S where "S = spare (buff db)"
  have e: "elems (buff db) = p1 @ k @ p2 @ v @ R"
    using assms(1) by (simp add: enc_rec_def p1_def p2_def)
  have u1: "Uvarint (elems (buff db)) = (of_nat (length k), int (length p1))"
    unfolding e p1_def by (rule Uvarint_uvarint_bytes)
  have sk: "sint (of_nat (length k) :: 64 word) = int (length k)"
    using assms(2) by (rule sint_of_nat_63)
  have sv: "sint (of_nat (length v) :: 64 word) = int (length v)"
    using assms(3) by (rule sint_of_nat_63)
  have r1: "slice_range (buff db) (int (length p1)) (int (length p1) + int (length k)) = Some k"
    by (simp add: slice_range_def cap_def e)
  have f1: "slice_from (buff db) (int (length p1) + int (length k)) =
      Some \<lparr>elems = p2 @ v @ R, spare = S\<rparr>"
    by (simp add: slice_from_def len_def e S_def nat_add_distrib)
  have u2: "Uvarint (p2 @ v @ R) = (of_nat (length v), int (length p2))"
    unfolding p2_def by (rule Uvarint_uvarint_bytes)
  have r2: "slice_range (buff db) (int (length p1) + int (length k) + int (length p2))
      (int (length p1) + int (length k) + int (length p2) + int (length v)) = Some v"
    by (simp add: slice_range_def cap_def e nat_add_distrib)
  have f2: "slice_from (buff db) (int (length p1) + int (length k) + int (length p2) + int (length v)) =
      Some \<lparr>elems = R, spare = S\<rparr>"
    by (simp add: slice_from_def len_def e S_def nat_add_distrib)
  have pos: "0 < length p1" "0 < length p2" by (simp_all add: p1_def p2_def)
  show ?thesis
    using pos
    by (simp add: decode_front_def u1 sk sv r1 f1 u2 r2 f2 S_def)
qed

lemma NewIterator_rd_state:
  assumes "rd_state p db w d ix dp ip" and "\<not> iterating db"
  shows "\<exists>db1 w1. NewIterator db w =
        (Some \<lparr>key = [], val = [], err = None, eof = False\<rparr>, db1, w1) \<and>
      rd_state p db1 w1 d ix 0 0 \<and> offset db1 = 0 \<and> elems (buff db1) = []"
  using assms
  by (simp add: NewIterator_def rd_state_def file_Seek0_def pop_fault_def log_ev_def Let_def
      buff_reset_def)

lemma read_inv_start:
  "rd_state p db w (concat (map buf_of G))
     (index_bytes (map of_nat (cumsums 0 (map (\<lambda>g. length (buf_of g)) G)))) 0 0 \<Longrightarrow>
   offset db = 0 \<Longrightarrow> elems (buff db) = [] \<Longrightarrow> read_inv p db w [] G"
  unfolding read_inv_def
  by (rule exI [of _ "[]"], rule exI [of _ "[]"]) simp

lemma readChunk_eof:
  assumes "read_inv p db w [] []"
  shows "\<exists>db1 w1. readChunk db w = Some (Some EOF, db1, w1)"
  using assms
  by (auto simp: read_inv_def rd_state_def readChunk_def file_Read_def pop_fault_def
      log_ev_def Let_def index_bytes_def)

lemma readChunk_next:
  assumes "read_inv p db w [] (g # rest)" and "length (buf_of g) \<le> maxRW"
  shows "\<exists>db1 w1. readChunk db w = Some (None, db1, w1) \<and> read_inv p db1 w1 g rest"
proof -
  define n where "n = length (buf_of g)"
  have n30: "n \<le> maxRW" using assms(2) by (simp add: n_def)
  have n63: "n < 2 ^ 63" using n30 by (simp add: maxRW_def)
  from assms(1) obtain dc ic where
    rd: "rd_state p db w (dc @ concat (map buf_of (g # rest)))
          (ic @ index_bytes (map of_nat (cumsums (length dc)
             (map (\<lambda>g. length (buf_of g)) (g # rest))))) (length dc) (length ic)"
    and off: "offset db = of_nat (length dc)" and eb: "elems (buff db) = []"
    by (auto simp: read_inv_def)
  define x :: "64 word" where "x = of_nat (length dc + n)"
  define ixr where "ixr = index_bytes (map of_nat (cumsums (length dc + n)
      (map (\<lambda>g. length (buf_of g)) rest)))"
  define dr where "dr = concat (map buf_of rest)"
  have ix: "ic @ index_bytes (map of_nat (cumsums (length dc)
      (map (\<lambda>g. length (buf_of g)) (g # rest)))) = ic @ PutUint64 x @ ixr"
    by (simp add: index_bytes_def x_def ixr_def n_def)
  have d: "dc @ concat (map buf_of (g # rest)) = dc @ buf_of g @ dr"
    by (simp add: dr_def)
  note rd' = rd [unfolded ix d]
  define f1 where "f1 = \<lparr>f_path = (p, indexName), f_pos = length ic + 8,
      f_wronly = False, f_closed = False\<rparr>"
  define w1 where "w1 = log_ev (OpRead (Some (p, indexName)) 8) None w"
  have r1: "file_Read (index db) 8 w = (PutUint64 x, None, Some f1, w1)"
    using rd'
    by (simp add: rd_state_def file_Read_def pop_fault_def Let_def f1_def w1_def)
      (simp add: PutUint64_def maxRW_def)
  have sz: "sint (Uint64 (PutUint64 x) - offset db) = int n"
    using n63 by (simp add: Uint64_PutUint64 x_def off sint_of_nat_63)
  let ?db0 = "db\<lparr>index := Some f1, offset := Uint64 (PutUint64 x)\<rparr>"
  obtain b where g: "grow (int n) ?db0 = ?db0\<lparr>buff := b\<rparr>" "elems b = elems (buff ?db0)"
    "n \<le> length (spare b)"
    using grow_buff [of "int n" ?db0] by auto
  have eb0: "elems b = []" using g(2) eb by simp
  define b1 where "b1 = \<lparr>elems = take n (spare b), spare = drop n (spare b)\<rparr>"
  have s1: "slice_to b (int n) = Some b1"
    using g(3) eb0 by (simp add: slice_to_def cap_def b1_def)
  have lb1: "len b1 = n" using g(3) by (simp add: len_def b1_def)
  define f2 where "f2 = \<lparr>f_path = (p, syncedName), f_pos = length dc + n,
      f_wronly = False, f_closed = False\<rparr>"
  define w2 where "w2 = log_ev (OpRead (Some (p, syncedName)) n) None w1"
  have dfile: "files w1 (p, syncedName) = Some (dc @ buf_of g @ dr)" "plan w1 = []"
    "data db = Some \<lparr>f_path = (p, syncedName), f_pos = length dc,
        f_wronly = False, f_closed = False\<rparr>"
    using rd' by (simp_all add: rd_state_def w1_def log_ev_def)
  have r2: "\<exists>f2'. file_Read (data db) n w1 = (buf_of g, None, f2', w2) \<and>
      (f2' = Some f2 \<or> n = 0 \<and> f2' = data db)"
    using dfile n30
    by (cases "n = 0")
      (auto simp: file_Read_def pop_fault_def Let_def f2_def w2_def n_def min_def)
  then obtain f2' where r2': "file_Read (data db) n w1 = (buf_of g, None, f2', w2)"
    and f2': "f2' = Some f2 \<or> n = 0 \<and> f2' = data db" by blast
  have f2eq: "f2' = Some f2" using f2' dfile(3) by (auto simp: f2_def)
  have wa: "write_at (elems b1) 0 (buf_of g) = buf_of g"
    using g(3) by (simp add: write_at_def b1_def n_def)
  let ?db1 = "?db0\<lparr>buff := b1\<lparr>elems := buf_of g\<rparr>, data := f2'\<rparr>"
  have rc: "readChunk db w = Some (None, ?db1, w2)"
    unfolding readChunk_def
    using r1 sz g(1) s1 lb1 r2' wa
    by (simp add: Let_def n_def)
  have "rd_state p ?db1 w2 ((dc @ buf_of g) @ dr) ((ic @ PutUint64 x) @ ixr)
      (length (dc @ buf_of g)) (length (ic @ PutUint64 x))"
    using rd' f2eq
    by (simp add: rd_state_def w2_def w1_def log_ev_def f1_def f2_def n_def)
  moreover have "offset ?db1 = of_nat (length (dc @ buf_of g))"
    by (simp add: Uint64_PutUint64 x_def n_def)
  moreover have "elems (buff ?db1) = buf_of g" by simp
  ultimately have "read_inv p ?db1 w2 g rest"
    unfolding read_inv_def dr_def ixr_def n_def
    by (intro exI [of _ "dc @ buf_of g"] exI [of _ "ic @ PutUint64 x"]) simp
  then show ?thesis using rc by blast
qed

lemma buf_of_Cons: "buf_of (e # es) = put_bytes (fst e) (snd e) @ buf_of es"
  by (simp add: buf_of_def)

lemma fits_enc: "fits e \<Longrightarrow> put_bytes (fst e) (snd e) = enc_rec e"
  using put_bytes_enc_rec [of "fst e" "snd e"] by (simp add: fits_def maxRW_def)

lemma enc_rec_nonempty: "enc_rec e \<noteq> []"
  by (simp add: enc_rec_def)

lemma read_inv_elems: "read_inv p db w cur rest \<Longrightarrow> elems (buff db) = buf_of cur"
  by (auto simp: read_inv_def)

lemma read_inv_buff:
  "read_inv p db w cur rest \<Longrightarrow> elems b = buf_of cur' \<Longrightarrow>
   read_inv p (db\<lparr>buff := b\<rparr>) w cur' rest"
  by (auto simp: read_inv_def rd_state_def)

lemma Next_cur:
  assumes "read_inv p db w (e # cur) rest" and "fits e"
  shows "\<exists>db1. Next it db w = Some (True, it\<lparr>key := fst e, val := snd e\<rparr>, db1, w) \<and>
      read_inv p db1 w cur rest"
proof -
  have eb: "elems (buff db) = enc_rec (fst e, snd e) @ buf_of cur"
    using read_inv_elems [OF assms(1)] assms(2) by (simp add: buf_of_Cons fits_enc)
  then have ne: "len (buff db) \<noteq> 0" using enc_rec_nonempty [of e] by (simp add: len_def)
  have lk: "length (fst e) < 2 ^ 63" "length (snd e) < 2 ^ 63"
    using assms(2) by (simp_all add: fits_def maxRW_def)
  have "Next it db w = decode_front it db w" using ne by (simp add: Next_def)
  also have "\<dots> = Some (True, it\<lparr>key := fst e, val := snd e\<rparr>,
      db\<lparr>buff := \<lparr>elems = buf_of cur, spare = spare (buff db)\<rparr>\<rparr>, w)"
    by (rule decode_front_rec [OF eb lk])
  finally show ?thesis
    using read_inv_buff [OF assms(1), of "\<lparr>elems = buf_of cur, spare = spare (buff db)\<rparr>" cur]
    by simp
qed

lemma Next_load:
  assumes "read_inv p db w [] ((e # g) # rest)" and "\<not> eof it" and "fits e"
    and "length (buf_of (e # g)) \<le> maxRW"
  shows "\<exists>db1 w1. Next it db w = Some (True, it\<lparr>key := fst e, val := snd e\<rparr>, db1, w1) \<and>
      read_inv p db1 w1 g rest"
proof -
  have l0: "len (buff db) = 0" using read_inv_elems [OF assms(1)] by (simp add: len_def)
  from readChunk_next [OF assms(1,4)]
  obtain db1 w1 where rc: "readChunk db w = Some (None, db1, w1)"
    and inv: "read_inv p db1 w1 (e # g) rest" by blast
  have eb: "elems (buff db1) = enc_rec (fst e, snd e) @ buf_of g"
    using read_inv_elems [OF inv] assms(3) by (simp add: buf_of_Cons fits_enc)
  have lk: "length (fst e) < 2 ^ 63" "length (snd e) < 2 ^ 63"
    using assms(3) by (simp_all add: fits_def maxRW_def)
  have "Next it db w = decode_front it db1 w1"
    using l0 assms(2) rc by (simp add: Next_def)
  also have "\<dots> = Some (True, it\<lparr>key := fst e, val := snd e\<rparr>,
      db1\<lparr>buff := \<lparr>elems = buf_of g, spare = spare (buff db1)\<rparr>\<rparr>, w1)"
    by (rule decode_front_rec [OF eb lk])
  finally show ?thesis
    using read_inv_buff [OF inv, of "\<lparr>elems = buf_of g, spare = spare (buff db1)\<rparr>" g]
    by simp
qed

lemma Next_exhausted:
  assumes "read_inv p db w [] [] \<or> read_inv p db w [] [[]]" and "\<not> eof it"
  shows "\<exists>it1 db1 w1. Next it db w = Some (False, it1, db1, w1) \<and> err it1 = err it"
proof -
  have l0: "len (buff db) = 0" using assms(1) by (auto simp: len_def dest: read_inv_elems)
  from assms(1) show ?thesis
  proof
    assume "read_inv p db w [] []"
    from readChunk_eof [OF this]
    show ?thesis using l0 assms(2) by (auto simp: Next_def)
  next
    assume a: "read_inv p db w [] [[]]"
    have "length (buf_of []) \<le> maxRW" by simp
    from readChunk_next [OF a this]
    obtain db1 w1 where rc: "readChunk db w = Some (None, db1, w1)"
      and inv: "read_inv p db1 w1 [] []" by blast
    have "elems (buff db1) = []" using read_inv_elems [OF inv] by simp
    then have "decode_front it db1 w1 = Some (False, it, db1, w1)"
      by (rule decode_front_empty)
    then show ?thesis using l0 assms(2) rc by (simp add: Next_def)
  qed
qed

lemma collect_append:
  "collect m it db w = Some (xs, it1, db1, w1) \<Longrightarrow> collect n it1 db1 w1 = Some (ys, s) \<Longrightarrow>
   collect (m + n) it db w = Some (xs @ ys, s)"
proof (induction m arbitrary: it db w xs)
  case 0
  then show ?case by simp
next
  case (Suc m)
  from Suc.prems(1) obtain it2 db2 w2 where nx: "Next it db w = Some (True, it2, db2, w2)"
    by (auto split: option.splits prod.splits bool.splits)
  with Suc.prems(1) obtain xs' where c: "collect m it2 db2 w2 = Some (xs', it1, db1, w1)"
    and xs: "xs = (Key it2, Value it2) # xs'"
    by (auto split: option.splits prod.splits)
  from Suc.IH [OF c Suc.prems(2)] show ?case using nx xs by simp
qed

lemma collect_cur:
  assumes "read_inv p db w cur rest" and "\<forall>e \<in> set cur. fits e" and "\<not> eof it"
  shows "\<exists>it1 db1. collect (length cur) it db w = Some (cur, it1, db1, w) \<and>
      read_inv p db1 w [] rest \<and> \<not> eof it1 \<and> err it1 = err it"
  using assms
proof (induction cur arbitrary: it db)
  case Nil
  then show ?case by simp
next
  case (Cons e cur)
  have fe: "fits e" using Cons.prems(2) by simp
  from Next_cur [OF Cons.prems(1) fe, of it]
  obtain db1 where nx: "Next it db w = Some (True, it\<lparr>key := fst e, val := snd e\<rparr>, db1, w)"
    and inv: "read_inv p db1 w cur rest" by blast
  have "\<forall>e \<in> set cur. fits e" using Cons.prems(2) by simp
  moreover have "\<not> eof (it\<lparr>key := fst e, val := snd e\<rparr>)" using Cons.prems(3) by simp
  ultimately obtain it2 db2 where
    c: "collect (length cur) (it\<lparr>key := fst e, val := snd e\<rparr>) db1 w = Some (cur, it2, db2, w)"
    and r: "read_inv p db2 w [] rest" "\<not> eof it2" "err it2 = err (it\<lparr>key := fst e, val := snd e\<rparr>)"
    using Cons.IH [OF inv] by blast
  show ?case using nx c r by (simp add: Key_def Value_def)
qed

lemma collect_all:
  assumes "read_inv p db w cur rest" and "\<forall>e \<in> set cur. fits e"
    and "\<forall>g \<in> set rest. (\<forall>e \<in> set g. fits e) \<and> length (buf_of g) \<le> maxRW"
    and "\<forall>g \<in> set (butlast rest). g \<noteq> []" and "\<not> eof it"
  shows "\<exists>it1 db1 w1. collect (length (cur @ concat rest)) it db w =
        Some (cur @ concat rest, it1, db1, w1) \<and>
      (read_inv p db1 w1 [] [] \<or> read_inv p db1 w1 [] [[]]) \<and> \<not> eof it1 \<and> err it1 = err it"
  using assms
proof (induction rest arbitrary: cur it db w)
  case Nil
  from collect_cur [OF Nil.prems(1,2,5)] show ?case by auto
next
  case (Cons g rest)
  from collect_cur [OF Cons.prems(1,2,5)]
  obtain it1 db1 where c1: "collect (length cur) it db w = Some (cur, it1, db1, w)"
    and inv1: "read_inv p db1 w [] (g # rest)" and e1: "\<not> eof it1" "err it1 = err it"
    by blast
  show ?case
  proof (cases g)
    case Nil
    have "rest = []"
    proof (rule ccontr)
      assume "rest \<noteq> []"
      then have "g \<in> set (butlast (g # rest))" by simp
      then show False using Cons.prems(4) Nil by blast
    qed
    then show ?thesis using c1 inv1 e1 Nil by simp
  next
    case (Cons e g')
    have fe: "fits e" and fg: "\<forall>e \<in> set g'. fits e"
      and lg: "length (buf_of (e # g')) \<le> maxRW"
      using Cons.prems(3) Cons by simp_all
    from Next_load [OF inv1 [unfolded Cons] e1(1) fe lg]
    obtain db2 w2 where nx: "Next it1 db1 w = Some (True, it1\<lparr>key := fst e, val := snd e\<rparr>, db2, w2)"
      and inv2: "read_inv p db2 w2 g' rest" by blast
    have r3: "\<forall>g \<in> set rest. (\<forall>e \<in> set g. fits e) \<and> length (buf_of g) \<le> maxRW"
      using Cons.prems(3) by simp
    have r4: "\<forall>g \<in> set (butlast rest). g \<noteq> []"
      using Cons.prems(4) by (cases rest) simp_all
    have e2: "\<not> eof (it1\<lparr>key := fst e, val := snd e\<rparr>)" using e1(1) by simp
    from Cons.IH [OF inv2 fg r3 r4 e2]
    obtain it3 db3 w3 where c3: "collect (length (g' @ concat rest))
          (it1\<lparr>key := fst e, val := snd e\<rparr>) db2 w2 = Some (g' @ concat rest, it3, db3, w3)"
      and fin: "read_inv p db3 w3 [] [] \<or> read_inv p db3 w3 [] [[]]" "\<not> eof it3"
        "err it3 = err (it1\<lparr>key := fst e, val := snd e\<rparr>)"
      by blast
    have c2: "collect (Suc (length (g' @ concat rest))) it1 db1 w =
        Some (e # g' @ concat rest, it3, db3, w3)"
      using nx c3 by (simp add: Key_def Value_def)
    have "collect (length cur + Suc (length (g' @ concat rest))) it db w =
        Some (cur @ e # g' @ concat rest, it3, db3, w3)"
      by (rule collect_append [OF c1 c2])
    then show ?thesis using fin e1 Cons by simp
  qed
qed

section \<open>The round trip\<close>

lemma chunking_butlast_nonempty: "\<forall>g \<in> set (butlast (chunking pend es)). g \<noteq> []"
  by (induction es arbitrary: pend) simp_all

lemma chunking_fits:
  "\<forall>e \<in> set pend. fits e \<Longrightarrow> \<forall>e \<in> set es. fits e \<Longrightarrow>
   \<forall>g \<in> set (chunking pend es). \<forall>e \<in> set g. fits e"
proof -
  assume a: "\<forall>e \<in> set pend. fits e" "\<forall>e \<in> set es. fits e"
  have "set (concat (chunking pend es)) = set pend \<union> set es" by (simp add: concat_chunking)
  then have "\<And>g e. g \<in> set (chunking pend es) \<Longrightarrow> e \<in> set g \<Longrightarrow> e \<in> set pend \<union> set es"
    by auto
  then show ?thesis using a by blast
qed

lemma length_put_bytes_le:
  "v \<noteq> [] \<Longrightarrow> length (put_bytes k v) \<le> 2 * MaxVarintLen32 + length k + length v"
  using prefixes_fit [of "length v" "length k"]
  by (simp add: put_bytes_def Let_def MaxVarintLen32_def)

lemma fits_length: "fits e \<Longrightarrow> chunkSize + length (put_bytes (fst e) (snd e)) \<le> maxRW"
  using length_put_bytes_le [of "snd e" "fst e"] by (simp add: fits_def)

lemma chunking_sizes:
  "length (buf_of pend) < chunkSize \<Longrightarrow> \<forall>e \<in> set es. fits e \<Longrightarrow>
   \<forall>g \<in> set (chunking pend es). length (buf_of g) \<le> maxRW"
proof (induction es arbitrary: pend)
  case Nil
  then show ?case by (simp add: chunkSize_def maxRW_def)
next
  case (Cons e es)
  have fe: "fits e" using Cons.prems(2) by simp
  have l: "length (buf_of (pend @ [e])) \<le> maxRW"
    using Cons.prems(1) fits_length [OF fe] by (simp add: buf_of_def)
  show ?case
  proof (cases "chunkSize \<le> length (buf_of (pend @ [e]))")
    case True
    have "\<forall>g \<in> set (chunking [] es). length (buf_of g) \<le> maxRW"
      using Cons.IH [of "[]"] Cons.prems(2) by (simp add: chunkSize_def)
    then show ?thesis using True l by simp
  next
    case False
    then have "length (buf_of (pend @ [e])) < chunkSize" by simp
    from Cons.IH [OF this] show ?thesis using False Cons.prems(2) by simp
  qed
qed

lemma round_trip_run:
  assumes "plan w = []" and "\<forall>e \<in> set es. fits e"
  shows "\<exists>db w0 db1 w1 db2 w2 it db3 w3 it4 db4 w4 it5 db5 w5.
      NewFlatDatabase p False w = (Inr db, w0) \<and>
      put_all es db w0 = Some (None, db1, w1) \<and>
      Commit db1 w1 = (None, db2, w2) \<and>
      NewIterator db2 w2 = (Some it, db3, w3) \<and>
      collect (length es) it db3 w3 = Some (es, it4, db4, w4) \<and>
      Next it4 db4 w4 = Some (False, it5, db5, w5) \<and> err it5 = None"
proof -
  have ne: "\<forall>e \<in> set es. fst e \<noteq> [] \<and> snd e \<noteq> []" using assms(2) by (simp add: fits_def)
  from NewFlatDatabase_write [OF assms(1), of p]
  obtain db w0 where n: "NewFlatDatabase p False w = (Inr db, w0)"
    and i0: "write_inv p (length (trace w0)) db w0 [] []" and ni: "\<not> iterating db" by blast
  from put_all_write_inv [OF i0 ne]
  obtain db1 w1 where pa: "put_all es db w0 = Some (None, db1, w1)"
    and ni1: "iterating db1 = iterating db"
    and i1: "write_inv p (length (trace w0)) db1 w1
        ([] @ butlast (chunking [] es)) (last (chunking [] es))" by blast
  let ?G = "chunking [] es"
  from Commit_write_inv [OF i1]
  obtain db2 w2 where c: "Commit db1 w1 = (None, db2, w2)"
    and rd: "rd_state p db2 w2 (concat (map buf_of ?G))
        (index_bytes (map of_nat (cumsums 0 (map (\<lambda>g. length (buf_of g)) ?G)))) 0 0"
    and ni2: "iterating db2 = iterating db1"
    by (auto simp: butlast_last_chunking)
  have "\<not> iterating db2" using ni ni1 ni2 by simp
  from NewIterator_rd_state [OF rd this]
  obtain db3 w3 where it: "NewIterator db2 w2 =
        (Some \<lparr>key = [], val = [], err = None, eof = False\<rparr>, db3, w3)"
    and rd3: "rd_state p db3 w3 (concat (map buf_of ?G))
        (index_bytes (map of_nat (cumsums 0 (map (\<lambda>g. length (buf_of g)) ?G)))) 0 0"
    and o3: "offset db3 = 0" "elems (buff db3) = []" by blast
  let ?it = "\<lparr>key = [], val = [], err = None, eof = False\<rparr>"
  have inv: "read_inv p db3 w3 [] ?G" by (rule read_inv_start [OF rd3 o3])
  have a2: "\<forall>e \<in> set ([] :: (bytes \<times> bytes) list). fits e" by simp
  have a3: "\<forall>g \<in> set ?G. (\<forall>e \<in> set g. fits e) \<and> length (buf_of g) \<le> maxRW"
    using chunking_fits [OF a2 assms(2)] chunking_sizes [of "[]" es] assms(2)
    by (simp add: chunkSize_def)
  have a4: "\<forall>g \<in> set (butlast ?G). g \<noteq> []" by (rule chunking_butlast_nonempty)
  have a5: "\<not> eof ?it" by simp
  from collect_all [OF inv a2 a3 a4 a5]
  obtain it4 db4 w4 where col: "collect (length es) ?it db3 w3 = Some (es, it4, db4, w4)"
    and fin: "read_inv p db4 w4 [] [] \<or> read_inv p db4 w4 [] [[]]" "\<not> eof it4"
      "err it4 = err ?it"
    by (auto simp: concat_chunking)
  from Next_exhausted [OF fin(1,2)]
  obtain it5 db5 w5 where nx: "Next it4 db4 w4 = Some (False, it5, db5, w5)"
    and e5: "err it5 = err it4" by blast
  have "err it5 = None" using e5 fin(3) by simp
  then show ?thesis using n pa c it col nx by blast
qed

text \<open>
  The round trip of pairs that fit. In a world where nothing fails, for any pairs whose keys
  and values are not empty and whose sizes keep every chunk within the \<open>2 ^ 30\<close> bytes one
  \<^verbatim>\<open>Read\<close> transfers: a new engine in write mode takes every \<^verbatim>\<open>Put\<close>, \<^verbatim>\<open>Commit\<close> succeeds,
  \<^verbatim>\<open>NewIterator\<close> gives an iterator, and \<^verbatim>\<open>Next\<close> returns true once a pair, with the pairs in
  the order they were put, and then false with no error.
\<close>

theorem round_trip_fitting_entries:
  assumes "plan w = []" and "\<forall>e \<in> set es. fits e"
  shows "round_trip p w es"
proof -
  from round_trip_run [OF assms, of p]
  obtain db w0 db1 w1 db2 w2 it db3 w3 it4 db4 w4 it5 db5 w5 where
    "NewFlatDatabase p False w = (Inr db, w0)"
    "put_all es db w0 = Some (None, db1, w1)"
    "Commit db1 w1 = (None, db2, w2)"
    "NewIterator db2 w2 = (Some it, db3, w3)"
    "collect (length es) it db3 w3 = Some (es, it4, db4, w4)"
    "Next it4 db4 w4 = Some (False, it5, db5, w5)" "err it5 = None"
    by blast
  then show ?thesis by (simp add: round_trip_def Error_def)
qed

theorem round_trip_fitting_entries_witness:
  "plan world0 = [] \<and>
   fits ([1, 2, 3], [0x1a, 0x1b, 0x1c]) \<and> fits ([4, 5, 6], [0x2a, 0x2b, 0x2c]) \<and>
   round_trip ''db'' world0 [([1, 2, 3], [0x1a, 0x1b, 0x1c]), ([4, 5, 6], [0x2a, 0x2b, 0x2c])]"
proof -
  have p: "plan world0 = []" by (simp add: world0_def)
  have f: "fits ([1, 2, 3], [0x1a, 0x1b, 0x1c])" "fits ([4, 5, 6], [0x2a, 0x2b, 0x2c])"
    by (simp_all add: fits_def const_defs)
  then have "\<forall>e \<in> set [([1, 2, 3], [0x1a, 0x1b, 0x1c]), ([4, 5, 6], [0x2a, 0x2b, 0x2c])]. fits e"
    by simp
  from round_trip_fitting_entries [OF p this, of "''db''"] show ?thesis using p f by simp
qed

section \<open>A pair too long for the room Put makes and for one Read\<close>

lemma uvarint_bytes_length_gt:
  "2 ^ (7 * j) \<le> unat x \<Longrightarrow> j < length (uvarint_bytes x)"
proof (induction j arbitrary: x)
  case 0
  then show ?case by simp
next
  case (Suc j)
  have "(128 :: nat) \<le> 2 ^ (7 * Suc j)" by (simp add: power_add)
  then have big: "128 \<le> unat x" using Suc.prems by simp
  then have b: "0x80 \<le> x" by (simp add: word_le_nat_alt)
  have d: "unat (drop_bit 7 x) = unat x div 128"
    by (simp add: drop_bit_eq_div unat_div)
  have "128 * 2 ^ (7 * j) \<le> unat x" using Suc.prems by (simp add: power_add)
  then have "2 ^ (7 * j) \<le> unat x div 128" by (simp add: less_eq_div_iff_mult_less_eq)
  then have "j < length (uvarint_bytes (drop_bit 7 x))" using Suc.IH [of "drop_bit 7 x"] d by simp
  then show ?case by (simp add: uvarint_bytes_big [OF b])
qed

lemma readChunk_short:
  assumes "read_inv p db w [] (g # rest)" and "maxRW < length (buf_of g)"
    and "length (buf_of g) < 2 ^ 63"
  shows "\<exists>db1 w1. readChunk db w = Some (Some ErrReadFailure, db1, w1)"
proof -
  define n where "n = length (buf_of g)"
  have n30: "maxRW < n" using assms(2) by (simp add: n_def)
  have n63: "n < 2 ^ 63" using assms(3) by (simp add: n_def)
  from assms(1) obtain dc ic where
    rd: "rd_state p db w (dc @ concat (map buf_of (g # rest)))
          (ic @ index_bytes (map of_nat (cumsums (length dc)
             (map (\<lambda>g. length (buf_of g)) (g # rest))))) (length dc) (length ic)"
    and off: "offset db = of_nat (length dc)" and eb: "elems (buff db) = []"
    by (auto simp: read_inv_def)
  define x :: "64 word" where "x = of_nat (length dc + n)"
  define ixr where "ixr = index_bytes (map of_nat (cumsums (length dc + n)
      (map (\<lambda>g. length (buf_of g)) rest)))"
  define dr where "dr = concat (map buf_of rest)"
  have ix: "ic @ index_bytes (map of_nat (cumsums (length dc)
      (map (\<lambda>g. length (buf_of g)) (g # rest)))) = ic @ PutUint64 x @ ixr"
    by (simp add: index_bytes_def x_def ixr_def n_def)
  have d: "dc @ concat (map buf_of (g # rest)) = dc @ buf_of g @ dr"
    by (simp add: dr_def)
  note rd' = rd [unfolded ix d]
  define f1 where "f1 = \<lparr>f_path = (p, indexName), f_pos = length ic + 8,
      f_wronly = False, f_closed = False\<rparr>"
  define w1 where "w1 = log_ev (OpRead (Some (p, indexName)) 8) None w"
  have r1: "file_Read (index db) 8 w = (PutUint64 x, None, Some f1, w1)"
    using rd'
    by (simp add: rd_state_def file_Read_def pop_fault_def Let_def f1_def w1_def)
      (simp add: PutUint64_def maxRW_def)
  have sz: "sint (Uint64 (PutUint64 x) - offset db) = int n"
    using n63 by (simp add: Uint64_PutUint64 x_def off sint_of_nat_63)
  let ?db0 = "db\<lparr>index := Some f1, offset := Uint64 (PutUint64 x)\<rparr>"
  obtain b where g: "grow (int n) ?db0 = ?db0\<lparr>buff := b\<rparr>" "elems b = elems (buff ?db0)"
    "n \<le> length (spare b)"
    using grow_buff [of "int n" ?db0] by auto
  have eb0: "elems b = []" using g(2) eb by simp
  define b1 where "b1 = \<lparr>elems = take n (spare b), spare = drop n (spare b)\<rparr>"
  have s1: "slice_to b (int n) = Some b1"
    using g(3) eb0 by (simp add: slice_to_def cap_def b1_def)
  have lb1: "len b1 = n" using g(3) by (simp add: len_def b1_def)
  define f2 where "f2 = \<lparr>f_path = (p, syncedName), f_pos = length dc + maxRW,
      f_wronly = False, f_closed = False\<rparr>"
  define w2 where "w2 = log_ev (OpRead (Some (p, syncedName)) n) None w1"
  have dfile: "files w1 (p, syncedName) = Some (dc @ buf_of g @ dr)" "plan w1 = []"
    "data db = Some \<lparr>f_path = (p, syncedName), f_pos = length dc,
        f_wronly = False, f_closed = False\<rparr>"
    using rd' by (simp_all add: rd_state_def w1_def log_ev_def)
  have pos: "0 < maxRW" by (simp add: maxRW_def)
  have tk: "take maxRW (buf_of g) \<noteq> []" "length (take maxRW (buf_of g)) = maxRW"
    using assms(2) pos by auto
  have mn: "min n maxRW = maxRW" "n \<noteq> 0" using n30 by simp_all
  have tk2: "take maxRW (buf_of g @ dr) = take maxRW (buf_of g)"
    using assms(2) by simp
  have r2: "file_Read (data db) n w1 = (take maxRW (buf_of g), None, Some f2, w2)"
    unfolding file_Read_def pop_fault_def Let_def mn(1)
    using dfile mn(2) tk tk2
    by (simp add: f2_def w2_def)
  show ?thesis
    unfolding readChunk_def
    using r1 sz g(1) s1 lb1 r2 tk(2) n30
    by (simp add: Let_def)
qed

lemma Next_short:
  assumes "read_inv p db w [] (g # rest)" and "\<not> eof it" and "maxRW < length (buf_of g)"
    and "length (buf_of g) < 2 ^ 63"
  shows "\<exists>db1 w1. Next it db w = Some (False, it\<lparr>err := Some ErrReadFailure\<rparr>, db1, w1)"
proof -
  have l0: "len (buff db) = 0" using read_inv_elems [OF assms(1)] by (simp add: len_def)
  from readChunk_short [OF assms(1,3,4)]
  obtain db1 w1 where "readChunk db w = Some (Some ErrReadFailure, db1, w1)" by blast
  then show ?thesis using l0 assms(2) by (simp add: Next_def)
qed

lemma put_bytes_truncated:
  assumes "v \<noteq> []"
    and "2 * MaxVarintLen32 <
      length (uvarint_bytes (of_nat (length k))) + length (uvarint_bytes (of_nat (length v)))"
  shows "length (put_bytes k v) < length (enc_rec (k, v))"
proof -
  have "length (uvarint_bytes (of_nat (length k))) + length (uvarint_bytes (of_nat (length v)))
      \<le> 10 + length v"
    using assms(1) by (intro prefixes_fit) simp
  then show ?thesis
    using assms(2) by (simp add: put_bytes_def enc_rec_def Let_def MaxVarintLen32_def)
qed

lemma length_key_le_put_bytes: "length k \<le> length (put_bytes k v)"
  by (simp add: put_bytes_def Let_def)

lemma oversize_run:
  assumes "plan w = []" and "k \<noteq> []" and "v \<noteq> []"
    and "maxRW < length (put_bytes k v)" and "length (put_bytes k v) < 2 ^ 63"
  shows "\<exists>db w0 db1 w1 db2 w2 it db3 w3 db4 w4.
      NewFlatDatabase p False w = (Inr db, w0) \<and>
      put_all [(k, v)] db w0 = Some (None, db1, w1) \<and>
      Commit db1 w1 = (None, db2, w2) \<and>
      files w2 (p, syncedName) = Some (put_bytes k v) \<and>
      NewIterator db2 w2 = (Some it, db3, w3) \<and>
      Next it db3 w3 = Some (False, it\<lparr>err := Some ErrReadFailure\<rparr>, db4, w4)"
proof -
  let ?es = "[(k, v)]"
  have ne: "\<forall>e \<in> set ?es. fst e \<noteq> [] \<and> snd e \<noteq> []" using assms(2,3) by simp
  from NewFlatDatabase_write [OF assms(1), of p]
  obtain db w0 where n: "NewFlatDatabase p False w = (Inr db, w0)"
    and i0: "write_inv p (length (trace w0)) db w0 [] []" and ni: "\<not> iterating db" by blast
  from put_all_write_inv [OF i0 ne]
  obtain db1 w1 where pa: "put_all ?es db w0 = Some (None, db1, w1)"
    and ni1: "iterating db1 = iterating db"
    and i1: "write_inv p (length (trace w0)) db1 w1
        ([] @ butlast (chunking [] ?es)) (last (chunking [] ?es))" by blast
  let ?G = "chunking [] ?es"
  have G: "?G = [?es, []]"
    using assms(4) by (simp add: buf_of_def chunkSize_def maxRW_def)
  from Commit_write_inv [OF i1]
  obtain db2 w2 where c: "Commit db1 w1 = (None, db2, w2)"
    and rd: "rd_state p db2 w2 (concat (map buf_of ?G))
        (index_bytes (map of_nat (cumsums 0 (map (\<lambda>g. length (buf_of g)) ?G)))) 0 0"
    and ni2: "iterating db2 = iterating db1"
    by (auto simp: butlast_last_chunking)
  have fl: "files w2 (p, syncedName) = Some (put_bytes k v)"
    using rd unfolding G by (simp add: rd_state_def buf_of_def)
  have "\<not> iterating db2" using ni ni1 ni2 by simp
  from NewIterator_rd_state [OF rd this]
  obtain db3 w3 where it: "NewIterator db2 w2 =
        (Some \<lparr>key = [], val = [], err = None, eof = False\<rparr>, db3, w3)"
    and rd3: "rd_state p db3 w3 (concat (map buf_of ?G))
        (index_bytes (map of_nat (cumsums 0 (map (\<lambda>g. length (buf_of g)) ?G)))) 0 0"
    and o3: "offset db3 = 0" "elems (buff db3) = []" by blast
  let ?it = "\<lparr>key = [], val = [], err = None, eof = False\<rparr>"
  have inv: "read_inv p db3 w3 [] (?es # [[]])"
    using read_inv_start [OF rd3 o3] unfolding G .
  have l: "maxRW < length (buf_of ?es)" "length (buf_of ?es) < 2 ^ 63"
    using assms(4,5) by (simp_all add: buf_of_def)
  from Next_short [OF inv _ l, of ?it]
  obtain db4 w4 where
    "Next ?it db3 w3 = Some (False, ?it\<lparr>err := Some ErrReadFailure\<rparr>, db4, w4)"
    by auto
  then show ?thesis using n pa c fl it by blast
qed

lemma round_trip_oversize:
  assumes "plan w = []" and "k \<noteq> []" and "v \<noteq> []"
    and "maxRW < length (put_bytes k v)" and "length (put_bytes k v) < 2 ^ 63"
  shows "\<not> round_trip p w [(k, v)]"
proof -
  from oversize_run [OF assms, of p]
  obtain db w0 db1 w1 db2 w2 it db3 w3 db4 w4 where
    "NewFlatDatabase p False w = (Inr db, w0)"
    "put_all [(k, v)] db w0 = Some (None, db1, w1)"
    "Commit db1 w1 = (None, db2, w2)"
    "NewIterator db2 w2 = (Some it, db3, w3)"
    "Next it db3 w3 = Some (False, it\<lparr>err := Some ErrReadFailure\<rparr>, db4, w4)"
    by blast
  then show ?thesis by (simp add: round_trip_def)
qed

lemma oversize_record_short:
  "length (put_bytes (replicate (2 ^ 35) 0) (replicate (2 ^ 28) 0)) <
   length (enc_rec (replicate (2 ^ 35) 0, replicate (2 ^ 28) 0))"
proof -
  have "unat (of_nat (2 ^ 35) :: 64 word) = 2 ^ 35" by (simp add: unat_of_nat)
  then have "2 ^ (7 * 5) \<le> unat (of_nat (2 ^ 35) :: 64 word)" by simp
  then have l1: "5 < length (uvarint_bytes (of_nat (2 ^ 35)))"
    by (rule uvarint_bytes_length_gt)
  have "unat (of_nat (2 ^ 28) :: 64 word) = 2 ^ 28" by (simp add: unat_of_nat)
  then have "2 ^ (7 * 4) \<le> unat (of_nat (2 ^ 28) :: 64 word)" by simp
  then have l2: "4 < length (uvarint_bytes (of_nat (2 ^ 28)))"
    by (rule uvarint_bytes_length_gt)
  show ?thesis
    using l1 l2 by (intro put_bytes_truncated) (simp_all add: MaxVarintLen32_def)
qed

text \<open>
  C1. The round trip fails for a pair with a key of \<open>2 ^ 35\<close> bytes and a value of \<open>2 ^ 28\<close>
  bytes, in a world where nothing fails. The two length prefixes take 6 and 5 bytes, one more
  than the 10 bytes \<^verbatim>\<open>Put\<close> makes room for, and \<^verbatim>\<open>copy\<close> leaves the last byte of the value out:
  the record \<^verbatim>\<open>Put\<close> stores is shorter than the record of the pair (\<open>oversize_record_short\<close>).
  \<^verbatim>\<open>Put\<close> and \<^verbatim>\<open>Commit\<close> return no error and the data file holds that short record. Its one
  chunk is longer than the \<open>2 ^ 30\<close> bytes one \<^verbatim>\<open>Read\<close> transfers, so \<^verbatim>\<open>readChunk\<close> returns
  \<^verbatim>\<open>ErrReadFailure\<close>, and the first \<^verbatim>\<open>Next\<close> returns false with that error instead of giving
  the pair (\<open>oversize_run\<close>).
\<close>

theorem round_trip_fails_oversize:
  "plan world0 = [] \<and> replicate (2 ^ 35) (0 :: byte) \<noteq> [] \<and> replicate (2 ^ 28) (0 :: byte) \<noteq> [] \<and>
   \<not> round_trip ''db'' world0 [(replicate (2 ^ 35) 0, replicate (2 ^ 28) 0)]"
proof -
  let ?k = "replicate (2 ^ 35) (0 :: byte)"
  let ?v = "replicate (2 ^ 28) (0 :: byte)"
  have p: "plan world0 = []" by (simp add: world0_def)
  have ne: "?k \<noteq> []" "?v \<noteq> []" by simp_all
  have lo: "maxRW < length (put_bytes ?k ?v)"
    using length_key_le_put_bytes [of ?k ?v] by (simp add: maxRW_def)
  have hi: "length (put_bytes ?k ?v) < 2 ^ 63"
    using length_put_bytes_le [OF ne(2), of ?k] by (simp add: MaxVarintLen32_def)
  have "\<not> round_trip ''db'' world0 [(?k, ?v)]"
    by (rule round_trip_oversize [OF p ne lo hi])
  then show ?thesis using p by simp
qed

section \<open>The empty database\<close>

lemma put_each_empty:
  "\<forall>e \<in> set es. fst e = [] \<or> snd e = [] \<Longrightarrow>
   put_each es db w = Some (replicate (length es) (Some ErrEmptyEntry), db, w)"
  by (induction es) (auto simp: Put_def)

lemma NewFlatDatabase_created:
  assumes "NewFlatDatabase p False w = (Inr db, w0)"
  shows "wr_state p db (w0\<lparr>plan := []\<rparr>) [] [] \<and> \<not> iterating db \<and> elems (buff db) = [] \<and>
      offset db = 0"
  using assms names_distinct
  by (auto simp: NewFlatDatabase_def os_MkdirAll_def os_OpenFile_def pop_fault_def log_ev_def
      wr_state_def nil_slice_def split: list.splits option.splits if_splits)

lemma writeChunk_force_done:
  assumes "wr_state p db (w\<lparr>plan := []\<rparr>) d ix" and "writeChunk True db w = (None, db1, w1)"
  shows "wr_state p db1 (w1\<lparr>plan := []\<rparr>) (d @ elems (buff db)) (ix @ PutUint64 (offset db)) \<and>
      elems (buff db1) = [] \<and> iterating db1 = iterating db"
  using assms names_distinct
  by (auto simp: writeChunk_def wr_state_def file_Write_def pop_fault_def log_ev_def Let_def
      len_def pwrite_def buff_reset_def split: list.splits option.splits if_splits)

lemma closeNoLock_done:
  assumes "wr_state p db (w\<lparr>plan := []\<rparr>) d ix" and "closeNoLock db w = (None, db1, w1)"
  shows "files w1 (p, temporaryName) = Some (d @ elems (buff db)) \<and>
      files w1 (p, indexName) = Some (ix @ PutUint64 (offset db)) \<and>
      path db1 = p \<and> elems (buff db1) = [] \<and> iterating db1 = iterating db"
proof -
  from assms(2) obtain db' w' where wc: "writeChunk True db w = (None, db', w')"
    and rest: "(case file_Sync (data db') w' of
             (Some e, w2) \<Rightarrow> (Some e, db', w2)
           | (None, w2) \<Rightarrow>
               (case file_Sync (index db') w2 of
                  (Some e, w3) \<Rightarrow> (Some e, db', w3)
                | (None, w3) \<Rightarrow>
                    (case file_Close (data db') w3 of
                       (Some e, f1, w4) \<Rightarrow> (Some e, db'\<lparr>data := f1\<rparr>, w4)
                     | (None, f1, w4) \<Rightarrow>
                         (case file_Close (index db') w4 of
                            (Some e, f2, w5) \<Rightarrow> (Some e, db'\<lparr>data := f1, index := f2\<rparr>, w5)
                          | (None, f2, w5) \<Rightarrow> (None, db'\<lparr>data := f1, index := f2\<rparr>, w5))))) =
          (None, db1, w1)"
    by (auto simp: closeNoLock_def split: prod.splits option.splits)
  from writeChunk_force_done [OF assms(1) wc]
  have st: "wr_state p db' (w'\<lparr>plan := []\<rparr>) (d @ elems (buff db)) (ix @ PutUint64 (offset db))"
    and e: "elems (buff db') = []" "iterating db' = iterating db" by simp_all
  show ?thesis
    using rest st e
    by (auto simp: wr_state_def file_Sync_def file_Close_def pop_fault_def log_ev_def
        file_invalid_def Let_def split: list.splits option.splits if_splits prod.splits)
qed

lemma Commit_done:
  assumes "wr_state p db (w\<lparr>plan := []\<rparr>) d ix" and "Commit db w = (None, db2, w2)"
  shows "rd_state p db2 (w2\<lparr>plan := []\<rparr>) (d @ elems (buff db)) (ix @ PutUint64 (offset db)) 0 0 \<and>
      offset db2 = 0 \<and> elems (buff db2) = [] \<and> iterating db2 = iterating db"
proof -
  from assms(2) obtain db1 w1 where cl: "closeNoLock db w = (None, db1, w1)"
    and rest: "(case rename (path db1, temporaryName) (path db1, syncedName) w1 of
             (Some e, w2) \<Rightarrow> (Some e, db1, w2)
           | (None, w2) \<Rightarrow>
               (case syncDir (path db1) w2 of
                  (Some e, w3) \<Rightarrow> (Some e, db1, w3)
                | (None, w3) \<Rightarrow>
                    (let db2 = db1\<lparr>read := True, offset := 0\<rparr> in
                     case os_OpenFile (path db2, syncedName) False w3 of
                       (Inl e, w4) \<Rightarrow> (Some e, db2\<lparr>data := None\<rparr>, w4)
                     | (Inr d, w4) \<Rightarrow>
                         (case os_OpenFile (path db2, indexName) False w4 of
                            (Inl e, w5) \<Rightarrow> (Some e, db2\<lparr>data := Some d, index := None\<rparr>, w5)
                          | (Inr i, w5) \<Rightarrow>
                              (None, db2\<lparr>data := Some d, index := Some i\<rparr>, w5))))) =
          (None, db2, w2)"
    by (auto simp: Commit_def split: prod.splits option.splits)
  from closeNoLock_done [OF assms(1) cl]
  have f: "files w1 (p, temporaryName) = Some (d @ elems (buff db))"
    "files w1 (p, indexName) = Some (ix @ PutUint64 (offset db))"
    "path db1 = p" "elems (buff db1) = []" "iterating db1 = iterating db" by simp_all
  show ?thesis
    using rest f names_distinct
    by (auto simp: rd_state_def rename_def syncDir_def os_OpenFile_def pop_fault_def log_ev_def
        Let_def split: list.splits option.splits if_splits prod.splits sum.splits)
qed

lemma Commit_wr_state:
  assumes "wr_state p db w d ix"
  shows "\<exists>db1 w1. Commit db w = (None, db1, w1) \<and>
      rd_state p db1 w1 (d @ elems (buff db)) (ix @ PutUint64 (offset db)) 0 0 \<and>
      offset db1 = 0 \<and> elems (buff db1) = [] \<and> iterating db1 = iterating db"
proof -
  from writeChunk_flush [OF assms, of True]
  obtain db1 w1 where f: "writeChunk True db w = (None, db1, w1)"
    "wr_state p db1 w1 (d @ elems (buff db)) (ix @ PutUint64 (offset db))"
    "elems (buff db1) = []" "iterating db1 = iterating db"
    by auto
  show ?thesis
    using f names_distinct
    by (simp add: Commit_def closeNoLock_def wr_state_def rd_state_def file_Sync_def
        file_Close_def rename_def syncDir_def os_OpenFile_def pop_fault_def log_ev_def
        file_invalid_def Let_def)
qed

lemma Put_flush_fails:
  assumes "wr_state p db (w\<lparr>plan := []\<rparr>) d ix" and "plan w = Some e # fs"
    and "k \<noteq> []" and "v \<noteq> []" and "chunkSize \<le> length (elems (buff db) @ put_bytes k v)"
  shows "\<exists>db1 w1. Put k v db w = Some (Some e, db1, w1) \<and>
      wr_state p db1 (w1\<lparr>plan := []\<rparr>) d ix \<and> plan w1 = fs \<and>
      elems (buff db1) = elems (buff db) @ put_bytes k v \<and>
      offset db1 = offset db + of_nat (length (put_bytes k v)) \<and>
      iterating db1 = iterating db"
proof -
  have nr: "\<not> read db" using assms(1) by (simp add: wr_state_def)
  obtain b where put: "Put k v db w =
      Some (writeChunk False
             (db\<lparr>buff := b, items := items db + 1,
                 offset := offset db + of_nat (length (put_bytes k v))\<rparr>) w)"
    and eb: "elems b = elems (buff db) @ put_bytes k v"
    using Put_appends [OF assms(3,4) nr] by blast
  have "\<not> len b < chunkSize" using assms(5) eb by (simp add: len_def)
  then show ?thesis
    using put eb assms(1,2)
    by (simp add: writeChunk_def file_Write_def pop_fault_def log_ev_def wr_state_def)
qed

text \<open>
  C4, as it is worded, fails on the code. In an empty file system where the fourth system
  call fails, the first write to the data file, an engine is made and \<^verbatim>\<open>Put\<close> is called once,
  with a key of one byte and a value of \<open>chunkSize\<close> bytes: the record goes into the buffer,
  the flush fails and \<^verbatim>\<open>Put\<close> returns the error of the system, so no \<^verbatim>\<open>Put\<close> has succeeded. The
  record stays in the buffer. Nothing fails from then on: \<^verbatim>\<open>Commit\<close> writes the buffer and returns
  nil, and the first \<^verbatim>\<open>Next\<close> of a new iterator returns true, with that pair.
\<close>

theorem failed_Put_is_committed:
  "first_Next_after_Commit ''db'' (world0\<lparr>plan := [None, None, None, Some (Errno 5)]\<rparr>)
     [([1], replicate 4194304 0)] =
   Some ([Some (Errno 5)], [], None, True, None, [1], replicate 4194304 0)"
proof -
  let ?w = "world0\<lparr>plan := [None, None, None, Some (Errno 5)]\<rparr>"
  let ?v = "replicate 4194304 (0 :: byte)"
  let ?e = "([1 :: byte], ?v)"
  let ?R = "put_bytes [1] ?v"
  have n: "NewFlatDatabase ''db'' False ?w = (Inr db0, world1\<lparr>plan := [Some (Errno 5)]\<rparr>)"
    by (auto simp: NewFlatDatabase_def os_MkdirAll_def os_OpenFile_def pop_fault_def log_ev_def
      world0_def db0_def world1_def temporaryName_def indexName_def parents_def)
  have wr0: "wr_state ''db'' db0 ((world1\<lparr>plan := [Some (Errno 5)]\<rparr>)\<lparr>plan := []\<rparr>) [] []"
    using NewFlatDatabase_created [OF n] by simp
  have b0: "elems (buff db0) = []" "offset db0 = 0" "\<not> iterating db0"
    by (simp_all add: db0_def nil_slice_def)
  have f: "fits ?e" by (simp add: fits_def const_defs)
  have R: "?R = enc_rec ?e" using fits_enc [OF f] by simp
  have big: "chunkSize \<le> length (elems (buff db0) @ ?R)"
    by (simp add: b0 R enc_rec_def chunkSize_def)
  have pl: "plan (world1\<lparr>plan := [Some (Errno 5)]\<rparr>) = Some (Errno 5) # []" by simp
  from Put_flush_fails [OF wr0 pl _ _ big]
  obtain db1 w1 where put: "Put [1] ?v db0 (world1\<lparr>plan := [Some (Errno 5)]\<rparr>) =
        Some (Some (Errno 5), db1, w1)"
    and wr1: "wr_state ''db'' db1 (w1\<lparr>plan := []\<rparr>) [] []" and p1: "plan w1 = []"
    and e1: "elems (buff db1) = ?R" "offset db1 = of_nat (length ?R)"
      "\<not> iterating db1"
    using b0 by auto
  have "w1\<lparr>plan := []\<rparr> = w1" using p1 by simp
  then have wr1': "wr_state ''db'' db1 w1 [] []" using wr1 by simp
  from Commit_wr_state [OF wr1']
  obtain db2 w2 where c: "Commit db1 w1 = (None, db2, w2)"
    and rd: "rd_state ''db'' db2 w2 ([] @ elems (buff db1)) ([] @ PutUint64 (offset db1)) 0 0"
    and ni2: "iterating db2 = iterating db1" by blast
  have rd': "rd_state ''db'' db2 w2 (concat (map buf_of [[?e]]))
        (index_bytes (map of_nat (cumsums 0 (map (\<lambda>g. length (buf_of g)) [[?e]])))) 0 0"
    using rd e1 by (simp add: index_bytes_def buf_of_def)
  have "\<not> iterating db2" using ni2 e1(3) by simp
  from NewIterator_rd_state [OF rd' this]
  obtain db3 w3 where it: "NewIterator db2 w2 =
        (Some \<lparr>key = [], val = [], err = None, eof = False\<rparr>, db3, w3)"
    and rd3: "rd_state ''db'' db3 w3 (concat (map buf_of [[?e]]))
        (index_bytes (map of_nat (cumsums 0 (map (\<lambda>g. length (buf_of g)) [[?e]])))) 0 0"
    and o3: "offset db3 = 0" "elems (buff db3) = []" by blast
  let ?it = "\<lparr>key = [], val = [], err = None, eof = False\<rparr>"
  have inv: "read_inv ''db'' db3 w3 [] ((?e # []) # [])" by (rule read_inv_start [OF rd3 o3])
  have lr: "length (buf_of (?e # [])) \<le> maxRW"
    using fits_length [OF f] by (simp add: buf_of_def)
  from Next_load [OF inv _ f lr, of ?it]
  obtain db4 w4 where nx: "Next ?it db3 w3 =
      Some (True, ?it\<lparr>key := fst ?e, val := snd ?e\<rparr>, db4, w4)"
    by auto
  show ?thesis
    unfolding first_Next_after_Commit_def
    using n put p1 c it nx by (simp add: Error_def Key_def Value_def)
qed

text \<open>
  C4, amended. An engine is made in write mode and every \<^verbatim>\<open>Put\<close> called on it, if any, has an
  empty key or an empty value; each of them is rejected with \<^verbatim>\<open>ErrEmptyEntry\<close> and nothing is in
  the buffer. If \<^verbatim>\<open>Commit\<close> then returns nil and no system call fails after it, \<^verbatim>\<open>NewIterator\<close>
  gives an iterator, its first \<^verbatim>\<open>Next\<close> returns false and \<^verbatim>\<open>Error\<close> returns nil. The schedule of
  failures is arbitrary up to the return of \<^verbatim>\<open>Commit\<close>.
\<close>

theorem empty_database_exhausted:
  assumes "NewFlatDatabase p False w = (Inr db, w0)"
    and "\<forall>e \<in> set es. fst e = [] \<or> snd e = []"
    and "put_each es db w0 = Some (rs, db1, w1)"
    and "Commit db1 w1 = (None, db2, w2)" and "plan w2 = []"
  shows "rs = replicate (length es) (Some ErrEmptyEntry) \<and>
    (\<exists>it db3 w3 it4 db4 w4.
      NewIterator db2 w2 = (Some it, db3, w3) \<and>
      Next it db3 w3 = Some (False, it4, db4, w4) \<and> Error it4 = None)"
proof -
  from NewFlatDatabase_created [OF assms(1)]
  have wr: "wr_state p db (w0\<lparr>plan := []\<rparr>) [] []" and ni: "\<not> iterating db"
    and b0: "elems (buff db) = []" "offset db = 0" by simp_all
  have same: "rs = replicate (length es) (Some ErrEmptyEntry)" "db1 = db" "w1 = w0"
    using put_each_empty [OF assms(2), of db w0] assms(3) by simp_all
  from Commit_done [OF wr assms(4) [unfolded same]]
  have "rd_state p db2 (w2\<lparr>plan := []\<rparr>) ([] @ elems (buff db)) ([] @ PutUint64 (offset db)) 0 0"
    and ni2: "iterating db2 = iterating db" by simp_all
  moreover have "w2\<lparr>plan := []\<rparr> = w2" using assms(5) by simp
  ultimately have rd: "rd_state p db2 w2 (concat (map buf_of [[]]))
        (index_bytes (map of_nat (cumsums 0 (map (\<lambda>g. length (buf_of g)) [[]])))) 0 0"
    using b0 by (simp add: index_bytes_def)
  have "\<not> iterating db2" using ni ni2 by simp
  from NewIterator_rd_state [OF rd this]
  obtain db3 w3 where it: "NewIterator db2 w2 =
        (Some \<lparr>key = [], val = [], err = None, eof = False\<rparr>, db3, w3)"
    and rd3: "rd_state p db3 w3 (concat (map buf_of [[]]))
        (index_bytes (map of_nat (cumsums 0 (map (\<lambda>g. length (buf_of g)) [[]])))) 0 0"
    and o3: "offset db3 = 0" "elems (buff db3) = []" by blast
  let ?it = "\<lparr>key = [], val = [], err = None, eof = False\<rparr>"
  have inv: "read_inv p db3 w3 [] [[]]" by (rule read_inv_start [OF rd3 o3])
  then have "read_inv p db3 w3 [] [] \<or> read_inv p db3 w3 [] [[]]" by simp
  moreover have "\<not> eof ?it" by simp
  ultimately obtain it4 db4 w4 where nx: "Next ?it db3 w3 = Some (False, it4, db4, w4)"
    and e4: "err it4 = err ?it"
    using Next_exhausted [of p db3 w3 ?it] by blast
  have "Error it4 = None" using e4 by (simp add: Error_def)
  then show ?thesis using it nx same(1) by blast
qed

theorem empty_database_exhausted_witness:
  "NewFlatDatabase ''db'' False world0 = (Inr db0, world1) \<and>
   (fst (([] :: bytes), [1 :: byte]) = [] \<or> snd (([] :: bytes), [1 :: byte]) = []) \<and>
   (fst ([2 :: byte], ([] :: bytes)) = [] \<or> snd ([2 :: byte], ([] :: bytes)) = []) \<and>
   put_each [([], [1]), ([2], [])] db0 world1 =
     Some ([Some ErrEmptyEntry, Some ErrEmptyEntry], db0, world1) \<and>
   Commit db0 world1 = (None, db0c, world1c) \<and> plan world1c = [] \<and>
   (\<exists>it db3 w3 it4 db4 w4.
      NewIterator db0c world1c = (Some it, db3, w3) \<and>
      Next it db3 w3 = Some (False, it4, db4, w4) \<and> Error it4 = None)"
proof -
  have e: "\<forall>e \<in> set [(([] :: bytes), [1 :: byte]), ([2], [])]. fst e = [] \<or> snd e = []" by simp
  have pe: "put_each [([], [1]), ([2], [])] db0 world1 =
      Some ([Some ErrEmptyEntry, Some ErrEmptyEntry], db0, world1)"
    by (simp add: Put_def)
  have p: "plan world1c = []" by (simp add: world1c_def)
  from empty_database_exhausted [OF NewFlatDatabase_world0 e pe Commit_db0 p]
  show ?thesis using NewFlatDatabase_world0 pe Commit_db0 p by simp
qed

end
